theory Spec2Isabelle
  imports Complex_Main "HOL-Library.Multiset" "HOL-Library.Log_Nat"
    "HOL-Library.Code_Target_Numeral"
begin

section \<open>The account router (src/server/routers/account.ts)\<close>

text \<open>
  The router has four procedures over two tables, \<open>accounts\<close> and \<open>transactions\<close>.
  Each procedure is modelled as a function from the caller, the input and the store to a
  result and the store after the call. A thrown \<open>TRPCError\<close> is the \<open>Inl\<close> of the
  result. The values that the code takes from outside (the results of
  \<open>crypto.randomInt\<close>, the clocks) are arguments.

  Amounts and balances are JavaScript numbers in the source, that is binary64 doubles.
  The model has them as such: a number is a rational or an infinity or NaN, and the sum
  of line 147 is the exact sum rounded to the nearest double.
\<close>

subsection \<open>Numbers\<close>

text \<open>
  A JavaScript number. The finite ones are the rationals that binary64 represents; the
  two zeros are not told apart (they compare alike, and a sum tells them apart only in
  the sign of a zero).
\<close>

datatype number = Finite rat | PosInfinity | NegInfinity | NaN

text \<open>
  The binary exponent of a positive rational \<open>x\<close>: the \<open>e\<close> with
  \<open>2 ^ e \<le> x < 2 ^ (e + 1)\<close>. \<open>floorlog 2 n\<close> is the number of binary digits of \<open>n\<close>.
\<close>

definition exponent_of :: "rat \<Rightarrow> int" where
  "exponent_of x =
     (if 1 \<le> x then int (floorlog 2 (nat \<lfloor>x\<rfloor>)) - 1
      else - int (floorlog 2 (nat (\<lceil>1 / x\<rceil> - 1))))"

text \<open>The nearest integer; of two that are equally near, the even one.\<close>

definition round_half_even :: "rat \<Rightarrow> int" where
  "round_half_even m =
     (if m - of_int \<lfloor>m\<rfloor> < 1 / 2 then \<lfloor>m\<rfloor>
      else if 1 / 2 < m - of_int \<lfloor>m\<rfloor> then \<lfloor>m\<rfloor> + 1
      else if even \<lfloor>m\<rfloor> then \<lfloor>m\<rfloor>
      else \<lfloor>m\<rfloor> + 1)"

text \<open>
  Rounding to binary64, to nearest with ties to even: 53 binary digits, the least
  exponent -1022 (below it the spacing stays \<open>2 ^ -1074\<close>), and an infinity when the
  rounded value reaches \<open>2 ^ 1024\<close>.
\<close>

definition round_double :: "rat \<Rightarrow> number" where
  "round_double x =
     (if x = 0 then Finite 0
      else
        (let q = max (exponent_of \<bar>x\<bar>) (- 1022) - 52;
             r = of_int (round_half_even (\<bar>x\<bar> / 2 powi q)) * 2 powi q
         in if 2 powi 1024 \<le> r then (if 0 < x then PosInfinity else NegInfinity)
            else Finite (if 0 < x then r else - r)))"

text \<open>The \<open>+\<close> of JavaScript on two numbers.\<close>

fun js_add :: "number \<Rightarrow> number \<Rightarrow> number" where
  "js_add NaN y = NaN"
| "js_add x NaN = NaN"
| "js_add PosInfinity NegInfinity = NaN"
| "js_add NegInfinity PosInfinity = NaN"
| "js_add PosInfinity y = PosInfinity"
| "js_add x PosInfinity = PosInfinity"
| "js_add NegInfinity y = NegInfinity"
| "js_add x NegInfinity = NegInfinity"
| "js_add (Finite a) (Finite b) = round_double (a + b)"

text \<open>The \<open><=\<close> and the \<open>>\<close> of JavaScript on two numbers: false when one of them is NaN.\<close>

fun js_le :: "number \<Rightarrow> number \<Rightarrow> bool" where
  "js_le NaN y = False"
| "js_le x NaN = False"
| "js_le NegInfinity y = True"
| "js_le x PosInfinity = True"
| "js_le (Finite a) (Finite b) = (a \<le> b)"
| "js_le x y = False"

fun js_gt :: "number \<Rightarrow> number \<Rightarrow> bool" where
  "js_gt NaN y = False"
| "js_gt x NaN = False"
| "js_gt x PosInfinity = False"
| "js_gt PosInfinity y = True"
| "js_gt NegInfinity y = False"
| "js_gt x NegInfinity = True"
| "js_gt (Finite a) (Finite b) = (b < a)"

text \<open>The sum of two numbers as it is in arithmetic, with no rounding.\<close>

fun exact_add :: "number \<Rightarrow> number \<Rightarrow> number" where
  "exact_add NaN y = NaN"
| "exact_add x NaN = NaN"
| "exact_add PosInfinity NegInfinity = NaN"
| "exact_add NegInfinity PosInfinity = NaN"
| "exact_add PosInfinity y = PosInfinity"
| "exact_add x PosInfinity = PosInfinity"
| "exact_add NegInfinity y = NegInfinity"
| "exact_add x NegInfinity = NegInfinity"
| "exact_add (Finite a) (Finite b) = Finite (a + b)"

text \<open>A number added \<open>n\<close> times to another, one \<open>+\<close> after the other.\<close>

fun add_repeatedly :: "nat \<Rightarrow> number \<Rightarrow> number \<Rightarrow> number" where
  "add_repeatedly 0 a b = b"
| "add_repeatedly (Suc n) a b = add_repeatedly n a (js_add b a)"

subsection \<open>Data\<close>

datatype account_type = Checking | Savings

fun account_type_str :: "account_type \<Rightarrow> string" where
  "account_type_str Checking = ''checking''"
| "account_type_str Savings = ''savings''"

datatype funding_type = Card | Bank

fun funding_type_str :: "funding_type \<Rightarrow> string" where
  "funding_type_str Card = ''card''"
| "funding_type_str Bank = ''bank''"

text \<open>
  A row of \<open>accounts\<close>. The table declaration (\<open>@/lib/db/schema\<close>) is not among the
  sources; the fields are the ones the router writes and reads, and \<open>a_id\<close> is the key
  the router selects by (\<open>accounts.id\<close>).
\<close>

record account =
  a_id :: nat
  a_userId :: nat
  a_accountNumber :: string
  a_accountType :: account_type
  a_balance :: number
  a_status :: string

text \<open>A row of \<open>transactions\<close>; \<open>t_createdAt\<close> is filled in by the table on insert.\<close>

record transaction =
  t_id :: nat
  t_accountId :: nat
  t_type :: string
  t_amount :: number
  t_description :: string
  t_status :: string
  t_createdAt :: nat
  t_processedAt :: nat

text \<open>Both tables, rows in insertion order.\<close>

record store =
  accounts :: "account list"
  transactions :: "transaction list"

definition empty_store :: store where
  "empty_store = \<lparr>accounts = [], transactions = []\<rparr>"

datatype trpc_code = CONFLICT | NOT_FOUND | BAD_REQUEST | INTERNAL_SERVER_ERROR

datatype trpc_error = TRPCError trpc_code string

subsection \<open>The tables\<close>

text \<open>
  Modelled from the spec: the table declarations of \<open>@/lib/db/schema\<close> are missing.
  The spec says of both \<open>id\<close>s that they are unique and assigned at creation, of the
  transaction's that it is creation-ordered. An insert gives the new row one more than
  the largest id of its table.
\<close>

definition next_id :: "nat list \<Rightarrow> nat" where
  "next_id ids = Suc (fold max ids 0)"

definition insert_account ::
  "nat \<Rightarrow> string \<Rightarrow> account_type \<Rightarrow> number \<Rightarrow> string \<Rightarrow> store \<Rightarrow> store" where
  "insert_account uid num ty bal st s =
     s\<lparr>accounts := accounts s @
        [\<lparr>a_id = next_id (map a_id (accounts s)), a_userId = uid, a_accountNumber = num,
          a_accountType = ty, a_balance = bal, a_status = st\<rparr>]\<rparr>"

text \<open>\<open>now\<close> is the table's clock at the insert: it becomes \<open>createdAt\<close>.\<close>

definition insert_transaction ::
  "nat \<Rightarrow> nat \<Rightarrow> string \<Rightarrow> number \<Rightarrow> string \<Rightarrow> string \<Rightarrow> nat \<Rightarrow> store \<Rightarrow> store" where
  "insert_transaction now aid ty amt descr st processed s =
     s\<lparr>transactions := transactions s @
        [\<lparr>t_id = next_id (map t_id (transactions s)), t_accountId = aid, t_type = ty,
          t_amount = amt, t_description = descr, t_status = st, t_createdAt = now,
          t_processedAt = processed\<rparr>]\<rparr>"

text \<open>\<open>db.select().from(accounts).where(p).get()\<close>: the first row that matches, if any.\<close>

definition get_account :: "(account \<Rightarrow> bool) \<Rightarrow> store \<Rightarrow> account option" where
  "get_account p s = find p (accounts s)"

text \<open>\<open>db.update(accounts).set({balance: b}).where(eq(accounts.id, aid))\<close>: every matching row.\<close>

definition update_balance :: "nat \<Rightarrow> number \<Rightarrow> store \<Rightarrow> store" where
  "update_balance aid b s =
     s\<lparr>accounts := map (\<lambda>a. if a_id a = aid then a\<lparr>a_balance := b\<rparr> else a) (accounts s)\<rparr>"

subsection \<open>generateAccountNumber\<close>

text \<open>\<open>Number.prototype.toString\<close> on a non-negative integer: its decimal digits.\<close>

definition digit_char :: "nat \<Rightarrow> char" where
  "digit_char d = ''0123456789'' ! (d mod 10)"

fun toString :: "nat \<Rightarrow> string" where
  "toString n = (if n < 10 then [digit_char n] else toString (n div 10) @ [digit_char n])"

declare toString.simps [simp del]

text \<open>
  \<open>crypto.randomInt(min, max)\<close> returns an integer \<open>r\<close> with \<open>min \<le> r < max\<close>. The
  argument \<open>r\<close> is that integer.
\<close>

definition randomInt_result :: "nat \<Rightarrow> nat \<Rightarrow> nat \<Rightarrow> bool" where
  "randomInt_result lo hi r \<longleftrightarrow> lo \<le> r \<and> r < hi"

definition generateAccountNumber :: "nat \<Rightarrow> string" where
  "generateAccountNumber r = toString r"

subsection \<open>createAccount\<close>

text \<open>
  The loop of lines 40 to 44: draw a number, look it up, stop when no account holds it.
  \<open>draws i\<close> is what the \<open>i\<close>-th call of \<open>crypto.randomInt\<close> in this request returns.
  The source's loop has no bound, so the model is a partial function: \<open>None\<close> is the
  loop that never ends.
\<close>

partial_function (option) unique_loop :: "(nat \<Rightarrow> nat) \<Rightarrow> store \<Rightarrow> nat \<Rightarrow> string option" where
  "unique_loop draws s i =
     (case get_account (\<lambda>a. a_accountNumber a = generateAccountNumber (draws i)) s of
        None \<Rightarrow> Some (generateAccountNumber (draws i))
      | Some existing \<Rightarrow> unique_loop draws s (Suc i))"

declare unique_loop.simps [code]

definition createAccount ::
  "(nat \<Rightarrow> nat) \<Rightarrow> nat \<Rightarrow> account_type \<Rightarrow> store \<Rightarrow> ((trpc_error + account) \<times> store) option" where
  "createAccount draws uid accountType s =
     (case get_account (\<lambda>a. a_userId a = uid \<and> a_accountType a = accountType) s of
        Some existingAccount \<Rightarrow>
          Some (Inl (TRPCError CONFLICT
                  (''You already have a '' @ account_type_str accountType @ '' account'')), s)
      | None \<Rightarrow>
          (case unique_loop draws s 0 of
             None \<Rightarrow> None
           | Some accountNumber \<Rightarrow>
               (let s' = insert_account uid accountNumber accountType (Finite 0) ''active'' s
                in case get_account (\<lambda>a. a_accountNumber a = accountNumber) s' of
                     None \<Rightarrow>
                       Some (Inl (TRPCError INTERNAL_SERVER_ERROR ''Failed to create account''), s')
                   | Some account \<Rightarrow> Some (Inr account, s'))))"

subsection \<open>getAccounts\<close>

definition getAccounts :: "nat \<Rightarrow> store \<Rightarrow> account list \<times> store" where
  "getAccounts uid s = (filter (\<lambda>a. a_userId a = uid) (accounts s), s)"

subsection \<open>fundAccount\<close>

record funding_source =
  fs_type :: funding_type
  fs_accountNumber :: string
  fs_routingNumber :: "string option"

record fund_input =
  i_accountId :: nat
  i_amount :: number
  i_fundingSource :: funding_source

text \<open>
  The input schema of lines 75 to 95: the amount is greater than zero, and a bank source
  has a routing number (\<open>!data.routingNumber\<close> holds of a missing and of an empty one).
  \<open>accountId\<close> is any number in the source; one that is not a natural number matches no
  row, as a natural number that no row has.
\<close>

definition fundAccount_schema :: "fund_input \<Rightarrow> bool" where
  "fundAccount_schema inp \<longleftrightarrow>
     js_gt (i_amount inp) (Finite 0) \<and>
     (fs_type (i_fundingSource inp) = Bank \<longrightarrow>
        fs_routingNumber (i_fundingSource inp) \<noteq> None \<and>
        fs_routingNumber (i_fundingSource inp) \<noteq> Some [])"

record fund_result =
  r_transaction :: "transaction option"
  r_newBalance :: number

text \<open>
  Lines 138 to 144: the account's transactions ordered by \<open>createdAt\<close>, ascending, the
  first of them. Rows with the same \<open>createdAt\<close> stay in insertion order.
\<close>

definition fetch_transaction :: "nat \<Rightarrow> store \<Rightarrow> transaction option" where
  "fetch_transaction aid s =
     (case sort_key t_createdAt (filter (\<lambda>t. t_accountId t = aid) (transactions s)) of
        [] \<Rightarrow> None
      | t # _ \<Rightarrow> Some t)"

text \<open>
  \<open>now\<close> is the table's clock when the transaction is inserted, \<open>processed\<close> is
  \<open>new Date()\<close> of line 134. The local \<open>amount\<close> of line 98 is the input's amount
  printed and read back, which gives the same number. Line 147 adds two doubles.
\<close>

definition fundAccount ::
  "nat \<Rightarrow> fund_input \<Rightarrow> nat \<Rightarrow> nat \<Rightarrow> store \<Rightarrow> (trpc_error + fund_result) \<times> store" where
  "fundAccount uid inp now processed s =
     (let amount = i_amount inp in
      if js_le amount (Finite 0)
      then (Inl (TRPCError BAD_REQUEST ''Funding amount must be greater than zero''), s)
      else
        case get_account (\<lambda>a. a_id a = i_accountId inp \<and> a_userId a = uid) s of
          None \<Rightarrow> (Inl (TRPCError NOT_FOUND ''Account not found''), s)
        | Some account \<Rightarrow>
            if a_status account \<noteq> ''active''
            then (Inl (TRPCError BAD_REQUEST ''Account is not active''), s)
            else
              (let s1 = insert_transaction now (i_accountId inp) ''deposit'' amount
                          (''Funding from '' @ funding_type_str (fs_type (i_fundingSource inp)))
                          ''completed'' processed s;
                   transaction = fetch_transaction (i_accountId inp) s1;
                   newBalance = js_add (a_balance account) amount;
                   s2 = update_balance (i_accountId inp) newBalance s1
               in (Inr \<lparr>r_transaction = transaction, r_newBalance = newBalance\<rparr>, s2)))"

subsection \<open>getTransactions\<close>

record enriched_transaction =
  e_transaction :: transaction
  e_accountType :: "account_type option"

text \<open>Lines 181 to 185: the account's transactions, newest \<open>createdAt\<close> first.\<close>

definition select_transactions_desc :: "nat \<Rightarrow> store \<Rightarrow> transaction list" where
  "select_transactions_desc aid s =
     sort_key (\<lambda>t. - int (t_createdAt t)) (filter (\<lambda>t. t_accountId t = aid) (transactions s))"

text \<open>
  Lines 188 to 195, one turn of the loop: \<open>accountDetails?.accountType\<close> is undefined
  when no account has the transaction's \<open>accountId\<close>.
\<close>

definition enrich :: "store \<Rightarrow> transaction \<Rightarrow> enriched_transaction" where
  "enrich s t =
     \<lparr>e_transaction = t,
      e_accountType = map_option a_accountType (get_account (\<lambda>a. a_id a = t_accountId t) s)\<rparr>"

definition getTransactions ::
  "nat \<Rightarrow> nat \<Rightarrow> store \<Rightarrow> (trpc_error + enriched_transaction list) \<times> store" where
  "getTransactions uid accountId s =
     (case get_account (\<lambda>a. a_id a = accountId \<and> a_userId a = uid) s of
        None \<Rightarrow> (Inl (TRPCError NOT_FOUND ''Account not found''), s)
      | Some account \<Rightarrow> (Inr (map (enrich s) (select_transactions_desc accountId s)), s))"

subsection \<open>Requests one after another\<close>

text \<open>
  A request that changes the store, and a list of them served in order, each to its end
  before the next begins. \<open>None\<close>: a \<open>createAccount\<close> whose loop never ends.
\<close>

datatype request =
    CreateAccount "nat \<Rightarrow> nat" nat account_type
  | FundAccount nat fund_input nat nat

fun serve :: "request \<Rightarrow> store \<Rightarrow> store option" where
  "serve (CreateAccount draws uid accountType) s = map_option snd (createAccount draws uid accountType s)"
| "serve (FundAccount uid inp now processed) s = Some (snd (fundAccount uid inp now processed s))"

fun serve_all :: "request list \<Rightarrow> store \<Rightarrow> store option" where
  "serve_all [] s = Some s"
| "serve_all (r # rs) s = (case serve r s of None \<Rightarrow> None | Some s' \<Rightarrow> serve_all rs s')"

text \<open>The amounts of the account's completed deposits, in the order of their insertion.\<close>

definition deposit_amounts :: "nat \<Rightarrow> store \<Rightarrow> number list" where
  "deposit_amounts aid s =
     map t_amount
       (filter (\<lambda>t. t_accountId t = aid \<and> t_status t = ''completed'' \<and> t_type t = ''deposit'')
          (transactions s))"

text \<open>
  Their sum as the code builds it, one \<open>+\<close> of doubles after the other from 0, and
  their sum as it is in arithmetic.
\<close>

definition deposits_added :: "nat \<Rightarrow> store \<Rightarrow> number" where
  "deposits_added aid s = foldl js_add (Finite 0) (deposit_amounts aid s)"

definition deposits_sum :: "nat \<Rightarrow> store \<Rightarrow> number" where
  "deposits_sum aid s = foldl exact_add (Finite 0) (deposit_amounts aid s)"

text \<open>The same \<open>fundAccount\<close> request again and again, once for each pair of clock readings.\<close>

fun fund_repeatedly :: "nat \<Rightarrow> fund_input \<Rightarrow> (nat \<times> nat) list \<Rightarrow> store \<Rightarrow> store" where
  "fund_repeatedly uid inp [] s = s"
| "fund_repeatedly uid inp ((now, processed) # clocks) s =
     fund_repeatedly uid inp clocks (snd (fundAccount uid inp now processed s))"

subsection \<open>fundAccount calls in flight together\<close>

text \<open>
  \<open>fundAccount\<close> is an async function with four \<open>await\<close>s, one for each statement on
  the store (lines 107, 128, 138 and 149). Between two \<open>await\<close>s a call runs alone; at
  an \<open>await\<close> another call may run. A call in flight is at one of these points, with the
  locals it holds there.
\<close>

datatype fund_call =
    Called nat fund_input nat nat
  | Selected fund_input nat nat "account option"
  | Inserted fund_input account
  | Fetched fund_input account "transaction option"
  | Returned "trpc_error + fund_result"

fun fund_step :: "fund_call \<Rightarrow> store \<Rightarrow> fund_call \<times> store" where
  "fund_step (Called uid inp now processed) s =
     (if js_le (i_amount inp) (Finite 0)
      then (Returned (Inl (TRPCError BAD_REQUEST ''Funding amount must be greater than zero'')), s)
      else (Selected inp now processed
              (get_account (\<lambda>a. a_id a = i_accountId inp \<and> a_userId a = uid) s), s))"
| "fund_step (Selected inp now processed None) s =
     (Returned (Inl (TRPCError NOT_FOUND ''Account not found'')), s)"
| "fund_step (Selected inp now processed (Some account)) s =
     (if a_status account \<noteq> ''active''
      then (Returned (Inl (TRPCError BAD_REQUEST ''Account is not active'')), s)
      else (Inserted inp account,
            insert_transaction now (i_accountId inp) ''deposit'' (i_amount inp)
              (''Funding from '' @ funding_type_str (fs_type (i_fundingSource inp)))
              ''completed'' processed s))"
| "fund_step (Inserted inp account) s =
     (Fetched inp account (fetch_transaction (i_accountId inp) s), s)"
| "fund_step (Fetched inp account transaction) s =
     (Returned (Inr \<lparr>r_transaction = transaction,
                     r_newBalance = js_add (a_balance account) (i_amount inp)\<rparr>),
      update_balance (i_accountId inp) (js_add (a_balance account) (i_amount inp)) s)"
| "fund_step (Returned r) s = (Returned r, s)"

text \<open>A schedule names, turn by turn, the call that runs to its next \<open>await\<close>.\<close>

fun run_schedule :: "nat list \<Rightarrow> fund_call list \<Rightarrow> store \<Rightarrow> fund_call list \<times> store" where
  "run_schedule [] calls s = (calls, s)"
| "run_schedule (k # ks) calls s =
     (if k < length calls
      then run_schedule ks (calls[k := fst (fund_step (calls ! k) s)])
             (snd (fund_step (calls ! k) s))
      else run_schedule ks calls s)"

fun succeeded :: "fund_call \<Rightarrow> bool" where
  "succeeded (Returned (Inr r)) = True"
| "succeeded c = False"

text \<open>The calls of one request made again and again, none of them begun yet.\<close>

fun start_calls :: "nat \<Rightarrow> fund_input \<Rightarrow> (nat \<times> nat) list \<Rightarrow> fund_call list" where
  "start_calls uid inp [] = []"
| "start_calls uid inp ((now, processed) # clocks) =
     Called uid inp now processed # start_calls uid inp clocks"

text \<open>
  The schedule in which \<open>n\<close> calls, from the \<open>k\<close>-th on, run one after another: each
  takes its four turns before the next begins.
\<close>

fun one_by_one :: "nat \<Rightarrow> nat \<Rightarrow> nat list" where
  "one_by_one k 0 = []"
| "one_by_one k (Suc n) = [k, k, k, k] @ one_by_one (Suc k) n"

text \<open>The transactions of an account.\<close>

definition transactions_of :: "nat \<Rightarrow> store \<Rightarrow> transaction list" where
  "transactions_of aid s = filter (\<lambda>t. t_accountId t = aid) (transactions s)"

text \<open>
  What a call in flight has done so far: whether its insert has happened, and the account
  it is about (a call that has returned no longer holds its input).
\<close>

fun inserted :: "fund_call \<Rightarrow> nat" where
  "inserted (Inserted inp account) = 1"
| "inserted (Fetched inp account transaction) = 1"
| "inserted (Returned (Inr r)) = 1"
| "inserted c = 0"

fun call_accountId :: "fund_call \<Rightarrow> nat option" where
  "call_accountId (Called uid inp now processed) = Some (i_accountId inp)"
| "call_accountId (Selected inp now processed account) = Some (i_accountId inp)"
| "call_accountId (Inserted inp account) = Some (i_accountId inp)"
| "call_accountId (Fetched inp account transaction) = Some (i_accountId inp)"
| "call_accountId (Returned r) = None"

text \<open>
  What holds of a store that the procedures have built: ids are distinct, every transaction
  is of an account, and every balance is the account's completed deposits added up.
\<close>

definition ledger_ok :: "store \<Rightarrow> bool" where
  "ledger_ok s \<longleftrightarrow>
     distinct (map a_id (accounts s)) \<and>
     t_accountId ` set (transactions s) \<subseteq> a_id ` set (accounts s) \<and>
     (\<forall>a\<in>set (accounts s). a_balance a = deposits_added (a_id a) s)"

subsection \<open>Stores and inputs for the examples\<close>

text \<open>A source of draws that gives the same number every time.\<close>

definition const_draws :: "nat \<Rightarrow> nat \<Rightarrow> nat" where
  "const_draws r i = r"

text \<open>A source of draws that counts up from a number.\<close>

definition draws_from :: "nat \<Rightarrow> nat \<Rightarrow> nat" where
  "draws_from r i = r + i"

definition checking1 :: account where
  "checking1 = \<lparr>a_id = 1, a_userId = 1, a_accountNumber = ''1234567890'',
                 a_accountType = Checking, a_balance = Finite 0, a_status = ''active''\<rparr>"

text \<open>The store after user 1 has opened a checking account.\<close>

definition store1 :: store where
  "store1 = \<lparr>accounts = [checking1], transactions = []\<rparr>"

text \<open>The same store with the account switched off.\<close>

definition store_inactive :: store where
  "store_inactive = \<lparr>accounts = [checking1\<lparr>a_status := ''inactive''\<rparr>], transactions = []\<rparr>"

definition card_source :: funding_source where
  "card_source = \<lparr>fs_type = Card, fs_accountNumber = ''4111111111111111'', fs_routingNumber = None\<rparr>"

definition fund100 :: fund_input where
  "fund100 = \<lparr>i_accountId = 1, i_amount = Finite 100, i_fundingSource = card_source\<rparr>"

definition fund50 :: fund_input where
  "fund50 = \<lparr>i_accountId = 1, i_amount = Finite 50, i_fundingSource = card_source\<rparr>"

definition deposit100 :: transaction where
  "deposit100 = \<lparr>t_id = 1, t_accountId = 1, t_type = ''deposit'', t_amount = Finite 100,
                  t_description = ''Funding from card'', t_status = ''completed'',
                  t_createdAt = 10, t_processedAt = 10\<rparr>"

definition deposit50 :: transaction where
  "deposit50 = \<lparr>t_id = 2, t_accountId = 1, t_type = ''deposit'', t_amount = Finite 50,
                 t_description = ''Funding from card'', t_status = ''completed'',
                 t_createdAt = 20, t_processedAt = 20\<rparr>"

text \<open>The store after the account has been funded with 100 at time 10.\<close>

definition store2 :: store where
  "store2 = \<lparr>accounts = [checking1\<lparr>a_balance := Finite 100\<rparr>], transactions = [deposit100]\<rparr>"

text \<open>The store after it has been funded with 50 more at time 20.\<close>

definition store3 :: store where
  "store3 = \<lparr>accounts = [checking1\<lparr>a_balance := Finite 150\<rparr>],
             transactions = [deposit100, deposit50]\<rparr>"

text \<open>
  A funding with ten quadrillion and a funding with 1, and the store after both, at
  times 10 and 20.
\<close>

definition fund_1e16 :: fund_input where
  "fund_1e16 = \<lparr>i_accountId = 1, i_amount = Finite 10000000000000000,
                 i_fundingSource = card_source\<rparr>"

definition fund_one :: fund_input where
  "fund_one = \<lparr>i_accountId = 1, i_amount = Finite 1, i_fundingSource = card_source\<rparr>"

definition store_1e16 :: store where
  "store_1e16 =
     \<lparr>accounts = [checking1\<lparr>a_balance := Finite 10000000000000000\<rparr>],
      transactions = [deposit100\<lparr>t_amount := Finite 10000000000000000\<rparr>]\<rparr>"

definition store_rounded :: store where
  "store_rounded =
     \<lparr>accounts = [checking1\<lparr>a_balance := Finite 10000000000000000\<rparr>],
      transactions = [deposit100\<lparr>t_amount := Finite 10000000000000000\<rparr>,
                      deposit50\<lparr>t_amount := Finite 1\<rparr>]\<rparr>"

text \<open>
  The double that the literal \<open>0.1\<close> denotes, a funding with it, and ten pairs of clock
  readings.
\<close>

definition tenth :: number where
  "tenth = Finite (3602879701896397 / 36028797018963968)"

definition fund_tenth :: fund_input where
  "fund_tenth = \<lparr>i_accountId = 1, i_amount = tenth, i_fundingSource = card_source\<rparr>"

definition ten_clocks :: "(nat \<times> nat) list" where
  "ten_clocks = [(10, 10), (11, 11), (12, 12), (13, 13), (14, 14),
                 (15, 15), (16, 16), (17, 17), (18, 18), (19, 19)]"

text \<open>The bounds that line 11 gives to \<open>crypto.randomInt\<close>.\<close>

definition lowest_draw :: nat where
  "lowest_draw = 1000000000"

definition draw_limit :: nat where
  "draw_limit = 9999999999"

text \<open>
  A store in which every number that \<open>crypto.randomInt(1000000000, 9999999999)\<close> can
  return is the account number of some account.
\<close>

definition full_store :: store where
  "full_store =
     \<lparr>accounts = map (\<lambda>n. \<lparr>a_id = n, a_userId = n, a_accountNumber = generateAccountNumber n,
                           a_accountType = Checking, a_balance = Finite 0, a_status = ''active''\<rparr>)
                  [lowest_draw..<draw_limit],
      transactions = []\<rparr>"

section \<open>Numbers\<close>

subsection \<open>The exponent and the rounding\<close>

lemma exponent_of_bounds:
  assumes "0 < x"
  shows "2 powi exponent_of x \<le> x \<and> x < 2 powi (exponent_of x + 1)"
proof (cases "1 \<le> x")
  case True
  let ?n = "nat \<lfloor>x\<rfloor>" and ?k = "floorlog 2 (nat \<lfloor>x\<rfloor>)"
  from True have n: "0 < ?n"
    by simp
  then have k: "0 < ?k"
    by (simp add: floorlog_eq_zero_iff Suc_le_eq flip: neq0_conv)
  have "2 ^ (?k - 1) \<le> ?n \<and> ?n < 2 ^ ?k"
    by (rule floorlog_bounds [OF n]) simp
  then have lo: "2 ^ (?k - 1) \<le> ?n" and hi: "?n < 2 ^ ?k"
    by blast+
  from lo have "(of_nat (2 ^ (?k - 1)) :: rat) \<le> of_nat ?n"
    by (simp only: of_nat_le_iff)
  moreover from True have nx: "(of_nat ?n :: rat) = of_int \<lfloor>x\<rfloor>"
    by simp
  ultimately have "(2::rat) ^ (?k - 1) \<le> x"
    by (simp add: le_floor_iff)
  moreover from hi have "Suc ?n \<le> 2 ^ ?k"
    by (simp only: Suc_le_eq)
  then have "(of_nat (Suc ?n) :: rat) \<le> of_nat (2 ^ ?k)"
    by (simp only: of_nat_le_iff)
  with nx have "x < (2::rat) ^ ?k"
    by simp linarith
  moreover from k have "exponent_of x = int (?k - 1)" "exponent_of x + 1 = int ?k"
    using True by (simp_all add: exponent_of_def)
  ultimately show ?thesis
    by (simp only: power_int_of_nat)
next
  case False
  let ?c = "\<lceil>1 / x\<rceil>"
  let ?n = "nat (?c - 1)" and ?k = "floorlog 2 (nat (?c - 1))"
  from False assms have inv: "1 < 1 / x"
    by simp
  then have c: "2 \<le> ?c"
    by (simp add: le_ceiling_iff) 
  then have n: "0 < ?n"
    by simp
  then have k: "0 < ?k"
    by (simp add: floorlog_eq_zero_iff flip: neq0_conv)
  have "2 ^ (?k - 1) \<le> ?n \<and> ?n < 2 ^ ?k"
    by (rule floorlog_bounds [OF n]) simp
  then have lo: "2 ^ (?k - 1) \<le> ?n" and hi: "?n < 2 ^ ?k"
    by blast+
  from c have "0 \<le> ?c - 1"
    by linarith
  then have "(of_nat ?n :: rat) = of_int (?c - 1)"
    by (rule of_nat_nat)
  then have nc: "(of_nat ?n :: rat) = of_int ?c - 1"
    by simp
  from hi have "Suc ?n \<le> 2 ^ ?k"
    by (simp only: Suc_le_eq)
  then have "(of_nat (Suc ?n) :: rat) \<le> of_nat (2 ^ ?k)"
    by (simp only: of_nat_le_iff)
  with nc have "of_int ?c \<le> (2::rat) ^ ?k"
    by simp
  moreover have "1 / x \<le> of_int ?c"
    by (rule le_of_int_ceiling)
  ultimately have "1 / x \<le> 2 ^ ?k"
    by linarith
  with assms have low: "1 / 2 ^ ?k \<le> x"
    by (simp add: field_simps)
  from lo have "(of_nat (2 ^ (?k - 1)) :: rat) \<le> of_nat ?n"
    by (simp only: of_nat_le_iff)
  with nc have "(2::rat) ^ (?k - 1) \<le> of_int ?c - 1"
    by simp
  moreover have "of_int ?c - 1 < 1 / x"
    using ceiling_correct [of "1 / x"] by linarith
  ultimately have "(2::rat) ^ (?k - 1) < 1 / x"
    by linarith
  with assms have high: "x < 1 / 2 ^ (?k - 1)"
    by (simp add: field_simps)
  from False have e: "exponent_of x = - int ?k"
    by (simp add: exponent_of_def)
  from k have e1: "exponent_of x + 1 = - int (?k - 1)"
    unfolding e by simp
  from low high show ?thesis
    unfolding e1 unfolding e by (simp only: power_int_minus_divide power_int_of_nat)
qed

lemma exponent_of_unique:
  assumes "0 < x" and "2 powi e \<le> x" and "x < 2 powi (e + 1)"
  shows "exponent_of x = e"
proof (rule ccontr)
  assume ne: "exponent_of x \<noteq> e"
  let ?e' = "exponent_of x"
  from exponent_of_bounds [OF assms(1)]
  have lo: "2 powi ?e' \<le> x" and hi: "x < 2 powi (?e' + 1)"
    by simp_all
  show False
  proof (cases "?e' < e")
    case True
    then have "(2::rat) powi (?e' + 1) \<le> 2 powi e"
      by (intro power_int_increasing) simp_all
    with hi assms(2) show False by linarith
  next
    case False
    with ne have "(2::rat) powi (e + 1) \<le> 2 powi ?e'"
      by (intro power_int_increasing) simp_all
    with lo assms(3) show False by linarith
  qed
qed

lemma round_half_even_near:
  assumes "\<bar>m - of_int n\<bar> < 1 / 2"
  shows "round_half_even m = n"
proof (cases "of_int n \<le> m")
  case True
  with assms have "\<lfloor>m\<rfloor> = n"
    by (intro floor_unique) linarith+
  with assms True show ?thesis
    by (simp add: round_half_even_def)
next
  case False
  with assms have f: "\<lfloor>m\<rfloor> = n - 1"
    by (intro floor_unique) (simp, linarith)+
  from assms False have "1 / 2 < m - of_int (n - 1)"
    by simp
  with f show ?thesis
    by (simp add: round_half_even_def)
qed

lemma round_half_even_tie:
  assumes "\<bar>m - of_int n\<bar> = 1 / 2" and "even n"
  shows "round_half_even m = n"
proof (cases "of_int n \<le> m")
  case True
  with assms have m: "m = of_int n + 1 / 2"
    by linarith
  then have "\<lfloor>m\<rfloor> = n"
    by (intro floor_unique) simp_all
  with m assms(2) show ?thesis
    by (simp add: round_half_even_def)
next
  case False
  with assms have m: "m = of_int (n - 1) + 1 / 2"
    by simp
  then have "\<lfloor>m\<rfloor> = n - 1"
    by (intro floor_unique) simp_all
  with m assms(2) show ?thesis
    by (simp add: round_half_even_def)
qed

lemma round_double_eval:
  assumes "0 < x" and "2 powi e \<le> x" and "x < 2 powi (e + 1)"
    and "q = max e (- 1022) - 52"
    and "round_half_even (x / 2 powi q) = n"
    and "of_int n * 2 powi q < (2::rat) powi 1024"
  shows "round_double x = Finite (of_int n * 2 powi q)"
proof -
  from assms(1-3) have "exponent_of x = e"
    by (rule exponent_of_unique)
  with assms(1,4-6) show ?thesis
    by (simp add: round_double_def Let_def del: power_int_numeral)
qed

subsection \<open>Whole numbers up to \<open>2 ^ 53\<close> are doubles\<close>

lemma round_double_nat:
  assumes "k \<le> 2 ^ 53"
  shows "round_double (of_nat k) = Finite (of_nat k)"
proof (cases "k = 0")
  case True
  then show ?thesis
    by (simp add: round_double_def)
next
  case False
  let ?x = "of_nat k :: rat"
  let ?e = "exponent_of ?x"
  from False have pos: "0 < ?x" and one: "1 \<le> ?x"
    by simp_all
  from exponent_of_bounds [OF pos] have lo: "2 powi ?e \<le> ?x" and hi: "?x < 2 powi (?e + 1)"
    by blast+
  have e0: "0 \<le> ?e"
  proof (rule ccontr)
    assume "\<not> 0 \<le> ?e"
    then have "(2::rat) powi (?e + 1) \<le> 2 powi 0"
      by (intro power_int_increasing) simp_all
    with hi one show False by simp
  qed
  from assms have "?x \<le> of_nat (2 ^ 53)"
    by (simp only: of_nat_le_iff)
  then have top: "?x \<le> 2 powi 53"
    by simp
  with lo have "(2::rat) powi ?e \<le> 2 powi 53"
    by linarith
  then have e53: "?e \<le> 53"
    by (rule power_int_le_imp_le_exp [rotated]) simp_all
  show ?thesis
  proof (cases "?e = 53")
    case True
    with lo top have "?x = 2 ^ 53"
      by simp
    moreover have "round_double (2 ^ 53) = Finite (of_int (2 ^ 52) * 2 powi 1)"
      by (rule round_double_eval [where e = 53])
         (simp_all add: round_half_even_near)
    ultimately show ?thesis
      by simp
  next
    case False
    define d where "d = nat (52 - ?e)"
    from False e53 have d: "?e = 52 - int d"
      by (simp add: d_def)
    have q: "- int d = max ?e (- 1022) - 52"
      using e0 d by simp
    have p: "(2::rat) powi (- int d) = 1 / 2 ^ d"
      by (simp only: power_int_minus_divide power_int_of_nat)
    have same: "of_int (int (k * 2 ^ d)) * 2 powi (- int d) = ?x"
      unfolding p by simp
    have "round_double ?x = Finite (of_int (int (k * 2 ^ d)) * 2 powi (- int d))"
    proof (rule round_double_eval [OF pos lo hi q])
      have "?x / 2 powi (- int d) = of_int (int (k * 2 ^ d))"
        unfolding p by simp
      then show "round_half_even (?x / 2 powi (- int d)) = int (k * 2 ^ d)"
        by (simp only: round_half_even_near [of "of_int (int (k * 2 ^ d))" "int (k * 2 ^ d)"])
      have "(2::rat) powi 53 < 2 powi 1024"
        by simp
      with top show "of_int (int (k * 2 ^ d)) * 2 powi (- int d) < (2::rat) powi 1024"
        unfolding same by linarith
    qed
    with same have "round_double ?x = Finite ?x"
      by (simp only:)
    then show ?thesis .
  qed
qed

lemma js_add_nat:
  assumes "m + n \<le> 2 ^ 53"
  shows "js_add (Finite (of_nat m)) (Finite (of_nat n)) = Finite (of_nat (m + n))"
  using round_double_nat [OF assms] by simp

lemma add_repeatedly_nat:
  "b + n * k \<le> 2 ^ 53 \<Longrightarrow>
   add_repeatedly n (Finite (of_nat k)) (Finite (of_nat b)) = Finite (of_nat (b + n * k))"
proof (induction n arbitrary: b)
  case 0
  then show ?case by simp
next
  case (Suc n)
  then have "b + k \<le> 2 ^ 53" and "(b + k) + n * k \<le> 2 ^ 53"
    by simp_all
  with Suc.IH [of "b + k"] show ?case
    by (simp add: js_add_nat del: js_add.simps)
qed

lemma foldl_js_add_nat:
  "b + sum_list ks \<le> 2 ^ 53 \<Longrightarrow>
   foldl js_add (Finite (of_nat b)) (map (\<lambda>k. Finite (of_nat k)) ks) =
     Finite (of_nat (b + sum_list ks))"
proof (induction ks arbitrary: b)
  case Nil
  then show ?case by simp
next
  case (Cons k ks)
  then have "b + k \<le> 2 ^ 53" and "(b + k) + sum_list ks \<le> 2 ^ 53"
    by simp_all
  with Cons.IH [of "b + k"] show ?case
    by (simp add: js_add_nat del: js_add.simps)
qed

lemma foldl_exact_add_nat:
  "foldl exact_add (Finite (of_nat b)) (map (\<lambda>k. Finite (of_nat k)) ks) =
     Finite (of_nat (b + sum_list ks))"
proof (induction ks arbitrary: b)
  case Nil
  then show ?case by simp
next
  case (Cons k ks)
  have "exact_add (Finite (of_nat b)) (Finite (of_nat k)) = Finite (of_nat (b + k))"
    by simp
  with Cons.IH [of "b + k"] show ?case
    by (simp add: add.assoc del: exact_add.simps of_nat_add)
qed

lemma js_add_0_100: "js_add (Finite 0) (Finite 100) = Finite 100"
  using js_add_nat [of 0 100] by simp

lemma js_add_100_50: "js_add (Finite 100) (Finite 50) = Finite 150"
  using js_add_nat [of 100 50] by simp

lemma js_add_100_100: "js_add (Finite 100) (Finite 100) = Finite 200"
  using js_add_nat [of 100 100] by simp


subsection \<open>Sums that round\<close>

lemma round_double_tie_1e16: "round_double (10000000000000000 + 1) = Finite 10000000000000000"
proof -
  have "round_double 10000000000000001 = Finite (of_int 5000000000000000 * 2 powi 1)"
    by (rule round_double_eval [where e = 53])
       (simp_all add: round_half_even_tie)
  then show ?thesis by simp
qed

lemma js_add_0_1e16: "js_add (Finite 0) (Finite 10000000000000000) = Finite 10000000000000000"
proof -
  have "round_double 10000000000000000 = Finite (of_int 5000000000000000 * 2 powi 1)"
    by (rule round_double_eval [where e = 53])
       (simp_all add: round_half_even_near)
  then show ?thesis by simp
qed

lemma js_add_1e16_1: "js_add (Finite 10000000000000000) (Finite 1) = Finite 10000000000000000"
  using round_double_tie_1e16 by simp

text \<open>The ten sums of \<open>0.1 + 0.1 + ...\<close>, each rounded.\<close>

lemma tenth_step_1:
  "js_add (Finite 0) (Finite (3602879701896397 / 36028797018963968)) = Finite (3602879701896397 / 36028797018963968)"
proof -
  have "round_double (0 + 3602879701896397 / 36028797018963968) = Finite (of_int 7205759403792794 * 2 powi (- 56))"
    by (rule round_double_eval [where e = "- 4"])
       (simp_all add: round_half_even_near)
  then show ?thesis
    by simp
qed

lemma tenth_step_2:
  "js_add (Finite (3602879701896397 / 36028797018963968)) (Finite (3602879701896397 / 36028797018963968)) = Finite (3602879701896397 / 18014398509481984)"
proof -
  have "round_double (3602879701896397 / 36028797018963968 + 3602879701896397 / 36028797018963968) = Finite (of_int 7205759403792794 * 2 powi (- 55))"
    by (rule round_double_eval [where e = "- 3"])
       (simp_all add: round_half_even_near)
  then show ?thesis
    by simp
qed

lemma tenth_step_3:
  "js_add (Finite (3602879701896397 / 18014398509481984)) (Finite (3602879701896397 / 36028797018963968)) = Finite (1351079888211149 / 4503599627370496)"
proof -
  have "round_double (3602879701896397 / 18014398509481984 + 3602879701896397 / 36028797018963968) = Finite (of_int 5404319552844596 * 2 powi (- 54))"
    by (rule round_double_eval [where e = "- 2"])
       (simp_all add: round_half_even_tie)
  then show ?thesis
    by simp
qed

lemma tenth_step_4:
  "js_add (Finite (1351079888211149 / 4503599627370496)) (Finite (3602879701896397 / 36028797018963968)) = Finite (3602879701896397 / 9007199254740992)"
proof -
  have "round_double (1351079888211149 / 4503599627370496 + 3602879701896397 / 36028797018963968) = Finite (of_int 7205759403792794 * 2 powi (- 54))"
    by (rule round_double_eval [where e = "- 2"])
       (simp_all add: round_half_even_tie)
  then show ?thesis
    by simp
qed

lemma tenth_step_5:
  "js_add (Finite (3602879701896397 / 9007199254740992)) (Finite (3602879701896397 / 36028797018963968)) = Finite (1 / 2)"
proof -
  have "round_double (3602879701896397 / 9007199254740992 + 3602879701896397 / 36028797018963968) = Finite (of_int 4503599627370496 * 2 powi (- 53))"
    by (rule round_double_eval [where e = "- 1"])
       (simp_all add: round_half_even_near)
  then show ?thesis
    by simp
qed

lemma tenth_step_6:
  "js_add (Finite (1 / 2)) (Finite (3602879701896397 / 36028797018963968)) = Finite (5404319552844595 / 9007199254740992)"
proof -
  have "round_double (1 / 2 + 3602879701896397 / 36028797018963968) = Finite (of_int 5404319552844595 * 2 powi (- 53))"
    by (rule round_double_eval [where e = "- 1"])
       (simp_all add: round_half_even_near)
  then show ?thesis
    by simp
qed

lemma tenth_step_7:
  "js_add (Finite (5404319552844595 / 9007199254740992)) (Finite (3602879701896397 / 36028797018963968)) = Finite (3152519739159347 / 4503599627370496)"
proof -
  have "round_double (5404319552844595 / 9007199254740992 + 3602879701896397 / 36028797018963968) = Finite (of_int 6305039478318694 * 2 powi (- 53))"
    by (rule round_double_eval [where e = "- 1"])
       (simp_all add: round_half_even_near)
  then show ?thesis
    by simp
qed

lemma tenth_step_8:
  "js_add (Finite (3152519739159347 / 4503599627370496)) (Finite (3602879701896397 / 36028797018963968)) = Finite (7205759403792793 / 9007199254740992)"
proof -
  have "round_double (3152519739159347 / 4503599627370496 + 3602879701896397 / 36028797018963968) = Finite (of_int 7205759403792793 * 2 powi (- 53))"
    by (rule round_double_eval [where e = "- 1"])
       (simp_all add: round_half_even_near)
  then show ?thesis
    by simp
qed

lemma tenth_step_9:
  "js_add (Finite (7205759403792793 / 9007199254740992)) (Finite (3602879701896397 / 36028797018963968)) = Finite (2026619832316723 / 2251799813685248)"
proof -
  have "round_double (7205759403792793 / 9007199254740992 + 3602879701896397 / 36028797018963968) = Finite (of_int 8106479329266892 * 2 powi (- 53))"
    by (rule round_double_eval [where e = "- 1"])
       (simp_all add: round_half_even_near)
  then show ?thesis
    by simp
qed

lemma tenth_step_10:
  "js_add (Finite (2026619832316723 / 2251799813685248)) (Finite (3602879701896397 / 36028797018963968)) = Finite (9007199254740991 / 9007199254740992)"
proof -
  have "round_double (2026619832316723 / 2251799813685248 + 3602879701896397 / 36028797018963968) = Finite (of_int 9007199254740991 * 2 powi (- 53))"
    by (rule round_double_eval [where e = "- 1"])
       (simp_all add: round_half_even_near)
  then show ?thesis
    by simp
qed

lemma ten_tenths:
  "add_repeatedly (length ten_clocks) tenth (Finite 0) =
     Finite (9007199254740991 / 9007199254740992)"
  by (simp add: ten_clocks_def tenth_def tenth_step_1 tenth_step_2 tenth_step_3 tenth_step_4 tenth_step_5 tenth_step_6 tenth_step_7 tenth_step_8 tenth_step_9 tenth_step_10 del: js_add.simps)

subsection \<open>Comparisons\<close>

lemma js_gt_not_le: "js_gt a (Finite 0) \<Longrightarrow> \<not> js_le a (Finite 0)"
  by (cases a) simp_all

section \<open>Account numbers\<close>

lemma digit_char_digit: "digit_char d \<in> set ''0123456789''"
  unfolding digit_char_def by (rule nth_mem) simp

lemma toString_digits: "set (toString n) \<subseteq> set ''0123456789''"
proof (induction n rule: toString.induct)
  case (1 n)
  show ?case
  proof (cases "n < 10")
    case True
    then show ?thesis
      using digit_char_digit [of n] by (subst toString.simps) simp
  next
    case False
    then show ?thesis
      using 1 digit_char_digit [of n] by (subst toString.simps) simp
  qed
qed

lemma toString_length: "10 ^ k \<le> n \<Longrightarrow> n < 10 ^ Suc k \<Longrightarrow> length (toString n) = Suc k"
proof (induction k arbitrary: n)
  case 0
  then show ?case by (subst toString.simps) simp
next
  case (Suc k)
  have "(1::nat) \<le> 10 ^ k"
    by simp
  moreover from Suc.prems have "10 * 10 ^ k \<le> n"
    by simp
  ultimately have big: "\<not> n < 10"
    by linarith
  from Suc.prems have "10 ^ k \<le> n div 10" "n div 10 < 10 ^ Suc k"
    by (simp_all add: less_mult_imp_div_less mult.commute)
  then have "length (toString (n div 10)) = Suc k"
    by (rule Suc.IH)
  with big show ?case by (subst toString.simps) simp
qed

text \<open>
  C9. Whatever integer \<open>crypto.randomInt(1000000000, 9999999999)\<close> returns, the account
  number made from it has exactly ten characters, each of them a decimal digit.
\<close>

theorem generateAccountNumber_ten_digits:
  assumes "randomInt_result 1000000000 9999999999 r"
  shows "length (generateAccountNumber r) = 10 \<and>
         set (generateAccountNumber r) \<subseteq> set ''0123456789''"
proof -
  from assms have "10 ^ 9 \<le> r" "r < 10 ^ Suc 9"
    by (simp_all add: randomInt_result_def)
  then have "length (toString r) = Suc 9"
    by (rule toString_length)
  then have "length (generateAccountNumber r) = 10"
    by (simp add: generateAccountNumber_def)
  moreover have "set (generateAccountNumber r) \<subseteq> set ''0123456789''"
    unfolding generateAccountNumber_def by (rule toString_digits)
  ultimately show ?thesis ..
qed

theorem generateAccountNumber_ten_digits_witness:
  "randomInt_result 1000000000 9999999999 4815162342 \<and>
   length (generateAccountNumber 4815162342) = 10 \<and>
   set (generateAccountNumber 4815162342) \<subseteq> set ''0123456789''"
proof -
  have h: "randomInt_result 1000000000 9999999999 4815162342"
    by (simp add: randomInt_result_def)
  show ?thesis
    using h generateAccountNumber_ten_digits [OF h] by simp
qed

section \<open>Looking up accounts\<close>

lemma get_account_None:
  "\<forall>a\<in>set (accounts s). \<not> p a \<Longrightarrow> get_account p s = None"
  by (simp add: get_account_def find_None_iff)

lemma get_account_Some_D:
  "get_account p s = Some a \<Longrightarrow> a \<in> set (accounts s) \<and> p a"
  unfolding get_account_def find_Some_iff by auto

lemma find_by_id:
  "distinct (map a_id as) \<Longrightarrow> a \<in> set as \<Longrightarrow> p a \<Longrightarrow>
   find (\<lambda>b. a_id b = a_id a \<and> p b) as = Some a"
proof (induction as)
  case Nil
  then show ?case by simp
next
  case (Cons b bs)
  show ?case
  proof (cases "b = a")
    case True
    with Cons.prems show ?thesis by simp
  next
    case False
    with Cons.prems have "a \<in> set bs" by simp
    with Cons.prems have "a_id b \<noteq> a_id a" by force
    with Cons \<open>a \<in> set bs\<close> show ?thesis by simp
  qed
qed

lemma get_account_by_id:
  "distinct (map a_id (accounts s)) \<Longrightarrow> a \<in> set (accounts s) \<Longrightarrow> p a \<Longrightarrow>
   get_account (\<lambda>b. a_id b = a_id a \<and> p b) s = Some a"
  unfolding get_account_def by (rule find_by_id)

section \<open>The examples\<close>

lemma generate_1234567890: "generateAccountNumber 1234567890 = ''1234567890''"
  by (simp add: generateAccountNumber_def toString.simps digit_char_def)

lemma createAccount_first:
  "createAccount (const_draws 1234567890) 1 Checking empty_store = Some (Inr checking1, store1)"
proof -
  have none: "get_account p empty_store = None" for p
    by (simp add: get_account_def empty_store_def)
  have loop: "unique_loop (const_draws 1234567890) empty_store 0 = Some ''1234567890''"
    by (subst unique_loop.simps) (simp add: none const_draws_def generate_1234567890)
  have ins: "insert_account 1 ''1234567890'' Checking (Finite 0) ''active'' empty_store = store1"
    by (simp add: insert_account_def empty_store_def store1_def checking1_def next_id_def)
  have found: "get_account (\<lambda>a. a_accountNumber a = ''1234567890'') store1 = Some checking1"
    by (simp add: get_account_def store1_def checking1_def)
  show ?thesis
    by (simp add: createAccount_def none loop ins found del: One_nat_def)
qed

section \<open>Errors\<close>

text \<open>
  C5. When no account has the given id, or the accounts that have it belong to other
  users, \<open>fundAccount\<close> (on an amount that passed the schema) and \<open>getTransactions\<close>
  both fail with \<open>NOT_FOUND\<close>, "Account not found", and leave the store as it was. The
  error is the same value in both cases, so it does not tell them apart.
\<close>

theorem not_found_same_error:
  assumes "js_gt (i_amount inp) (Finite 0)"
    and "\<forall>a\<in>set (accounts s). a_id a = i_accountId inp \<longrightarrow> a_userId a \<noteq> uid"
  shows "fundAccount uid inp now processed s = (Inl (TRPCError NOT_FOUND ''Account not found''), s) \<and>
         getTransactions uid (i_accountId inp) s = (Inl (TRPCError NOT_FOUND ''Account not found''), s)"
proof -
  from assms(2) have "get_account (\<lambda>a. a_id a = i_accountId inp \<and> a_userId a = uid) s = None"
    by (intro get_account_None) blast
  with js_gt_not_le [OF assms(1)] show ?thesis
    by (simp add: fundAccount_def getTransactions_def)
qed

theorem not_found_same_error_witness:
  "fundAccount 2 fund100 10 10 store1 = (Inl (TRPCError NOT_FOUND ''Account not found''), store1) \<and>
   getTransactions 2 1 store1 = (Inl (TRPCError NOT_FOUND ''Account not found''), store1) \<and>
   fundAccount 2 fund100 10 10 empty_store = (Inl (TRPCError NOT_FOUND ''Account not found''), empty_store) \<and>
   getTransactions 2 1 empty_store = (Inl (TRPCError NOT_FOUND ''Account not found''), empty_store)"
proof -
  have amt: "js_gt (i_amount fund100) (Finite 0)" and aid: "i_accountId fund100 = 1"
    by (simp_all add: fund100_def)
  have other: "\<forall>a\<in>set (accounts store1). a_id a = i_accountId fund100 \<longrightarrow> a_userId a \<noteq> 2"
    by (simp add: store1_def checking1_def)
  have missing: "\<forall>a\<in>set (accounts empty_store). a_id a = i_accountId fund100 \<longrightarrow> a_userId a \<noteq> 2"
    by (simp add: empty_store_def)
  show ?thesis
    using not_found_same_error [OF amt other, of 10 10]
      not_found_same_error [OF amt missing, of 10 10]
    by (simp add: aid)
qed

text \<open>
  C6. When the user already has an account of the requested type, \<open>createAccount\<close> fails
  with \<open>CONFLICT\<close> and the store is the one it was called on: no account is added.
\<close>

theorem createAccount_duplicate:
  assumes "a \<in> set (accounts s)" and "a_userId a = uid" and "a_accountType a = accountType"
  shows "createAccount draws uid accountType s =
           Some (Inl (TRPCError CONFLICT
                   (''You already have a '' @ account_type_str accountType @ '' account'')), s)"
proof -
  from assms have "find (\<lambda>a. a_userId a = uid \<and> a_accountType a = accountType) (accounts s) \<noteq> None"
    by (auto simp: find_None_iff)
  then obtain e where "get_account (\<lambda>a. a_userId a = uid \<and> a_accountType a = accountType) s = Some e"
    by (auto simp: get_account_def)
  then show ?thesis
    by (simp add: createAccount_def)
qed

theorem createAccount_duplicate_witness:
  "createAccount (const_draws 1234567890) 1 Checking empty_store = Some (Inr checking1, store1) \<and>
   createAccount (draws_from 1234567890) 1 Checking store1 =
     Some (Inl (TRPCError CONFLICT ''You already have a checking account''), store1)"
proof -
  have "checking1 \<in> set (accounts store1)"
    by (simp add: store1_def)
  moreover have "a_userId checking1 = 1" "a_accountType checking1 = Checking"
    by (simp_all add: checking1_def)
  ultimately show ?thesis
    using createAccount_duplicate [of checking1 store1 1 Checking "draws_from 1234567890"]
    by (simp add: createAccount_first del: One_nat_def)
qed

text \<open>
  C7. When the account belongs to the caller and its status is not "active",
  \<open>fundAccount\<close> fails with \<open>BAD_REQUEST\<close>, "Account is not active", and the store
  (balances and transactions) is the one it was called on.
\<close>

theorem fundAccount_inactive:
  assumes "js_gt (i_amount inp) (Finite 0)"
    and "distinct (map a_id (accounts s))"
    and "account \<in> set (accounts s)"
    and "a_id account = i_accountId inp" and "a_userId account = uid"
    and "a_status account \<noteq> ''active''"
  shows "fundAccount uid inp now processed s = (Inl (TRPCError BAD_REQUEST ''Account is not active''), s)"
proof -
  from assms have "get_account (\<lambda>a. a_id a = i_accountId inp \<and> a_userId a = uid) s = Some account"
    using get_account_by_id [of s account "\<lambda>a. a_userId a = uid"] by simp
  with js_gt_not_le [OF assms(1)] assms(6) show ?thesis
    by (simp add: fundAccount_def)
qed

theorem fundAccount_inactive_witness:
  "fundAccount 1 fund100 10 10 store_inactive =
     (Inl (TRPCError BAD_REQUEST ''Account is not active''), store_inactive)"
proof -
  have "js_gt (i_amount fund100) (Finite 0)"
    by (simp add: fund100_def)
  moreover have "distinct (map a_id (accounts store_inactive))"
    by (simp add: store_inactive_def)
  moreover have "checking1\<lparr>a_status := ''inactive''\<rparr> \<in> set (accounts store_inactive)"
    by (simp add: store_inactive_def)
  moreover have "a_id (checking1\<lparr>a_status := ''inactive''\<rparr>) = i_accountId fund100"
    "a_userId (checking1\<lparr>a_status := ''inactive''\<rparr>) = 1"
    "a_status (checking1\<lparr>a_status := ''inactive''\<rparr>) \<noteq> ''active''"
    by (simp_all add: checking1_def fund100_def)
  ultimately show ?thesis
    by (rule fundAccount_inactive)
qed

text \<open>
  C10. On an input that passed the schema, \<open>fundAccount\<close> never fails with the error of
  its own check of the amount (lines 99 to 104).
\<close>

theorem fundAccount_recheck_unreachable:
  assumes "fundAccount_schema inp"
  shows "fst (fundAccount uid inp now processed s) \<noteq>
           Inl (TRPCError BAD_REQUEST ''Funding amount must be greater than zero'')"
proof -
  from assms have "\<not> js_le (i_amount inp) (Finite 0)"
    by (simp add: fundAccount_schema_def js_gt_not_le)
  then show ?thesis
    by (simp add: fundAccount_def Let_def split: option.split)
qed

theorem fundAccount_recheck_unreachable_witness:
  "fundAccount_schema fund100 \<and>
   fst (fundAccount 1 fund100 10 10 store1) \<noteq>
     Inl (TRPCError BAD_REQUEST ''Funding amount must be greater than zero'')"
proof -
  have ok: "fundAccount_schema fund100"
    by (simp add: fundAccount_schema_def fund100_def card_source_def)
  with fundAccount_recheck_unreachable [OF ok] show ?thesis
    by simp
qed

section \<open>The history of an account\<close>

lemma get_account_id_only:
  assumes "distinct (map a_id (accounts s))" and "a \<in> set (accounts s)"
  shows "get_account (\<lambda>b. a_id b = a_id a) s = Some a"
  using get_account_by_id [OF assms, of "\<lambda>b. True"] by simp

lemma select_transactions_desc_set:
  "set (select_transactions_desc aid s) = {t \<in> set (transactions s). t_accountId t = aid}"
  by (auto simp: select_transactions_desc_def)

lemma select_transactions_desc_mset:
  "mset (select_transactions_desc aid s) = mset (filter (\<lambda>t. t_accountId t = aid) (transactions s))"
  by (simp add: select_transactions_desc_def)

lemma select_transactions_desc_sorted:
  "sorted_wrt (\<lambda>x y. t_createdAt y \<le> t_createdAt x) (select_transactions_desc aid s)"
proof -
  have "sorted (map (\<lambda>t. - int (t_createdAt t)) (select_transactions_desc aid s))"
    unfolding select_transactions_desc_def by (rule sorted_sort_key)
  then show ?thesis
    by (simp add: sorted_wrt_map)
qed

lemma enrich_transaction: "map e_transaction (map (enrich s) ts) = ts"
  by (induction ts) (simp_all add: enrich_def)

text \<open>
  C8. For an account of the caller, \<open>getTransactions\<close> returns exactly the transactions
  of that account, newest \<open>createdAt\<close> first, each with the \<open>accountType\<close> of the
  account, and the store after the call is the store before it.
\<close>

theorem getTransactions_newest_first:
  assumes "distinct (map a_id (accounts s))"
    and "account \<in> set (accounts s)"
    and "a_id account = accountId" and "a_userId account = uid"
  shows "\<exists>es. getTransactions uid accountId s = (Inr es, s) \<and>
           mset (map e_transaction es) =
             mset (filter (\<lambda>t. t_accountId t = accountId) (transactions s)) \<and>
           sorted_wrt (\<lambda>x y. t_createdAt y \<le> t_createdAt x) (map e_transaction es) \<and>
           (\<forall>e\<in>set es. e_accountType e = Some (a_accountType account))"
proof -
  let ?es = "map (enrich s) (select_transactions_desc accountId s)"
  from assms have "get_account (\<lambda>a. a_id a = accountId \<and> a_userId a = uid) s = Some account"
    using get_account_by_id [of s account "\<lambda>a. a_userId a = uid"] by simp
  then have res: "getTransactions uid accountId s = (Inr ?es, s)"
    by (simp add: getTransactions_def)
  have byid: "get_account (\<lambda>a. a_id a = accountId) s = Some account"
    using get_account_id_only [OF assms(1,2)] assms(3) by simp
  have ty: "\<forall>e\<in>set ?es. e_accountType e = Some (a_accountType account)"
    by (auto simp: enrich_def select_transactions_desc_set byid)
  have tx: "map e_transaction ?es = select_transactions_desc accountId s"
    by (rule enrich_transaction)
  have "getTransactions uid accountId s = (Inr ?es, s) \<and>
        mset (map e_transaction ?es) =
          mset (filter (\<lambda>t. t_accountId t = accountId) (transactions s)) \<and>
        sorted_wrt (\<lambda>x y. t_createdAt y \<le> t_createdAt x) (map e_transaction ?es) \<and>
        (\<forall>e\<in>set ?es. e_accountType e = Some (a_accountType account))"
    unfolding tx
    using res ty select_transactions_desc_mset [of accountId s]
      select_transactions_desc_sorted [of accountId s]
    by blast
  then show ?thesis ..
qed

theorem getTransactions_newest_first_witness:
  "getTransactions 1 1 store3 =
     (Inr [\<lparr>e_transaction = deposit50, e_accountType = Some Checking\<rparr>,
           \<lparr>e_transaction = deposit100, e_accountType = Some Checking\<rparr>], store3)"
proof -
  have "distinct (map a_id (accounts store3))"
    by (simp add: store3_def)
  moreover have "checking1\<lparr>a_balance := Finite 150\<rparr> \<in> set (accounts store3)"
    by (simp add: store3_def)
  moreover have "a_id (checking1\<lparr>a_balance := Finite 150\<rparr>) = 1" "a_userId (checking1\<lparr>a_balance := Finite 150\<rparr>) = 1"
    by (simp_all add: checking1_def)
  ultimately obtain es where es: "getTransactions 1 1 store3 = (Inr es, store3)"
    and ms: "mset (map e_transaction es) =
             mset (filter (\<lambda>t. t_accountId t = 1) (transactions store3))"
    and srt: "sorted_wrt (\<lambda>x y. t_createdAt y \<le> t_createdAt x) (map e_transaction es)"
    and ty: "\<forall>e\<in>set es. e_accountType e = Some (a_accountType (checking1\<lparr>a_balance := Finite 150\<rparr>))"
    using getTransactions_newest_first [of store3 "checking1\<lparr>a_balance := Finite 150\<rparr>" 1 1] by blast
  have "getTransactions 1 1 store3 =
     (Inr [\<lparr>e_transaction = deposit50, e_accountType = Some Checking\<rparr>,
           \<lparr>e_transaction = deposit100, e_accountType = Some Checking\<rparr>], store3)"
    by (simp add: getTransactions_def get_account_def store3_def checking1_def
        select_transactions_desc_def deposit100_def deposit50_def enrich_def)
  with es show ?thesis by simp
qed

section \<open>The balance and the transactions\<close>

lemma fold_max_ge: "x \<in> set xs \<Longrightarrow> x \<le> fold max xs (a::nat)"
proof (induction xs arbitrary: a)
  case Nil
  then show ?case by simp
next
  case (Cons y ys)
  have mono: "b \<le> fold max ys b" for b :: nat
    by (induction ys arbitrary: b) (auto intro: order_trans [OF max.cobounded2])
  from Cons show ?case
    using mono [of "max y a"] by auto
qed

lemma next_id_fresh: "next_id ids \<notin> set ids"
  using fold_max_ge [of "next_id ids" ids 0] by (auto simp: next_id_def)

lemma deposit_amounts_none:
  "aid \<notin> t_accountId ` set (transactions s) \<Longrightarrow> deposit_amounts aid s = []"
  by (auto simp: deposit_amounts_def filter_empty_conv)

lemma ledger_ok_empty: "ledger_ok empty_store"
  by (simp add: ledger_ok_def empty_store_def)

lemma deposit_amounts_insert_account [simp]:
  "deposit_amounts aid (insert_account uid num ty bal st s) = deposit_amounts aid s"
  by (simp add: deposit_amounts_def insert_account_def)

lemma ledger_ok_insert_account:
  assumes "ledger_ok s"
  shows "ledger_ok (insert_account uid num ty (Finite 0) st s)"
proof -
  let ?n = "next_id (map a_id (accounts s))"
  have fresh: "?n \<notin> a_id ` set (accounts s)"
    using next_id_fresh [of "map a_id (accounts s)"] by simp
  with assms have "?n \<notin> t_accountId ` set (transactions s)"
    by (auto simp: ledger_ok_def)
  then have "deposit_amounts ?n s = []"
    by (rule deposit_amounts_none)
  then have "deposits_added ?n s = Finite 0"
    by (simp add: deposits_added_def)
  with assms fresh show ?thesis
    unfolding ledger_ok_def
    by (auto simp: insert_account_def deposits_added_def deposit_amounts_def)
qed

lemma createAccount_store:
  "createAccount draws uid ty s = Some (r, s') \<Longrightarrow>
   s' = s \<or> (\<exists>num. s' = insert_account uid num ty (Finite 0) ''active'' s)"
  by (auto simp: createAccount_def Let_def split: option.splits)

lemma ledger_ok_createAccount:
  "ledger_ok s \<Longrightarrow> createAccount draws uid ty s = Some (r, s') \<Longrightarrow> ledger_ok s'"
  by (auto dest!: createAccount_store intro: ledger_ok_insert_account)

lemma deposit_amounts_fund:
  "deposit_amounts aid'
     (update_balance aid b (insert_transaction now aid ''deposit'' amt descr ''completed'' p s)) =
   (if aid' = aid then deposit_amounts aid' s @ [amt] else deposit_amounts aid' s)"
  by (simp add: deposit_amounts_def update_balance_def insert_transaction_def)

lemma deposits_added_fund:
  "deposits_added aid'
     (update_balance aid b (insert_transaction now aid ''deposit'' amt descr ''completed'' p s)) =
   (if aid' = aid then js_add (deposits_added aid' s) amt else deposits_added aid' s)"
  by (simp add: deposits_added_def deposit_amounts_fund del: js_add.simps)

lemma ledger_ok_fund:
  assumes ok: "ledger_ok s"
    and acc: "get_account (\<lambda>a. a_id a = aid \<and> a_userId a = uid) s = Some account"
  shows "ledger_ok (update_balance aid (js_add (a_balance account) amt)
           (insert_transaction now aid ''deposit'' amt descr ''completed'' p s))"
    (is "ledger_ok ?s'")
proof -
  from acc have mem: "account \<in> set (accounts s)" and aid: "a_id account = aid"
    by (auto dest: get_account_Some_D)
  from ok have dist: "distinct (map a_id (accounts s))"
    by (simp add: ledger_ok_def)
  have ids: "map a_id (accounts ?s') = map a_id (accounts s)"
    by (simp add: update_balance_def insert_transaction_def comp_def)
  have same: "a = account" if "a \<in> set (accounts s)" "a_id a = aid" for a
    using that mem aid dist by (metis distinct_map inj_onD)
  have bal: "a_balance a' = deposits_added (a_id a') ?s'" if "a' \<in> set (accounts ?s')" for a'
  proof -
    from that obtain a where a: "a \<in> set (accounts s)"
      and a': "a' = (if a_id a = aid then a\<lparr>a_balance := js_add (a_balance account) amt\<rparr> else a)"
      by (auto simp: update_balance_def insert_transaction_def)
    from ok a have old: "a_balance a = deposits_added (a_id a) s"
      by (simp add: ledger_ok_def)
    show ?thesis
    proof (cases "a_id a = aid")
      case True
      with a same have "a = account" by simp
      with True a' old show ?thesis
        by (simp add: deposits_added_fund del: js_add.simps)
    next
      case False
      with a' old show ?thesis
        by (simp add: deposits_added_fund del: js_add.simps)
    qed
  qed
  have refs: "t_accountId ` set (transactions ?s') \<subseteq> a_id ` set (accounts ?s')"
  proof -
    have "a_id ` set (accounts ?s') = a_id ` set (accounts s)"
      using ids by (metis set_map)
    moreover have "t_accountId ` set (transactions ?s') =
        insert aid (t_accountId ` set (transactions s))"
      by (simp add: update_balance_def insert_transaction_def)
    ultimately show ?thesis
      using ok mem aid by (auto simp: ledger_ok_def)
  qed
  from dist ids bal refs show ?thesis
    unfolding ledger_ok_def by simp
qed

lemma ledger_ok_fundAccount:
  "ledger_ok s \<Longrightarrow> ledger_ok (snd (fundAccount uid inp now processed s))"
  by (auto simp: fundAccount_def Let_def ledger_ok_fund split: option.splits)

lemma ledger_ok_serve: "ledger_ok s \<Longrightarrow> serve r s = Some s' \<Longrightarrow> ledger_ok s'"
  by (cases r) (auto intro: ledger_ok_createAccount ledger_ok_fundAccount)

lemma ledger_ok_serve_all: "ledger_ok s \<Longrightarrow> serve_all rs s = Some s' \<Longrightarrow> ledger_ok s'"
proof (induction rs arbitrary: s)
  case Nil
  then show ?case by simp
next
  case (Cons r rs)
  then show ?case
    by (auto split: option.splits dest: ledger_ok_serve)
qed

lemma whole_deposits_exact:
  assumes "deposit_amounts aid s = map (\<lambda>k. Finite (of_nat k)) ks" and "sum_list ks \<le> 2 ^ 53"
  shows "deposits_added aid s = deposits_sum aid s"
proof -
  from assms(2) have "0 + sum_list ks \<le> 2 ^ 53"
    by simp
  from foldl_js_add_nat [OF this] foldl_exact_add_nat [of 0 ks] assms(1) show ?thesis
    by (simp add: deposits_added_def deposits_sum_def)
qed

text \<open>
  C1, as the code has it. After any list of \<open>createAccount\<close> and \<open>fundAccount\<close>
  requests served one after another from the empty store, the balance of every account
  is what the amounts of its transactions of type "deposit" and status "completed" give
  when they are added in the order of their insertion, each sum rounded to a double. It
  is their sum when the amounts are whole numbers whose sum is at most \<open>2 ^ 53\<close>.
\<close>

theorem balance_is_deposits_added:
  assumes "serve_all rs empty_store = Some s" and "a \<in> set (accounts s)"
  shows "a_balance a = deposits_added (a_id a) s \<and>
         (\<forall>ks. deposit_amounts (a_id a) s = map (\<lambda>k. Finite (of_nat k)) ks \<and>
               sum_list ks \<le> 2 ^ 53 \<longrightarrow>
               a_balance a = deposits_sum (a_id a) s)"
proof -
  from assms(1) have "ledger_ok s"
    by (rule ledger_ok_serve_all [OF ledger_ok_empty])
  with assms(2) have "a_balance a = deposits_added (a_id a) s"
    by (simp add: ledger_ok_def)
  then show ?thesis
    using whole_deposits_exact [of "a_id a" s] by auto
qed

section \<open>The loop that draws account numbers\<close>

lemma unique_loop_free:
  "get_account (\<lambda>a. a_accountNumber a = generateAccountNumber (draws (i + k))) s = None \<Longrightarrow>
   \<exists>j\<le>k. unique_loop draws s i = Some (generateAccountNumber (draws (i + j))) \<and>
     get_account (\<lambda>a. a_accountNumber a = generateAccountNumber (draws (i + j))) s = None"
proof (induction k arbitrary: i)
  case 0
  then have "unique_loop draws s i = Some (generateAccountNumber (draws i))"
    by (subst unique_loop.simps) simp
  with 0 show ?case by simp
next
  case (Suc k)
  show ?case
  proof (cases "get_account (\<lambda>a. a_accountNumber a = generateAccountNumber (draws i)) s")
    case None
    then have "unique_loop draws s i = Some (generateAccountNumber (draws i))"
      by (subst unique_loop.simps) simp
    with None show ?thesis by auto
  next
    case (Some existing)
    then have unfold: "unique_loop draws s i = unique_loop draws s (Suc i)"
      by (subst unique_loop.simps) simp
    from Suc.prems have "get_account
        (\<lambda>a. a_accountNumber a = generateAccountNumber (draws (Suc i + k))) s = None"
      by simp
    then obtain j where "j \<le> k"
      and "unique_loop draws s (Suc i) = Some (generateAccountNumber (draws (Suc i + j)))"
      and "get_account (\<lambda>a. a_accountNumber a = generateAccountNumber (draws (Suc i + j))) s = None"
      using Suc.IH [of "Suc i"] by blast
    with unfold show ?thesis
      by (intro exI [of _ "Suc j"]) simp
  qed
qed

lemma unique_loop_Some:
  "unique_loop draws s i = Some num \<Longrightarrow>
   \<exists>k. num = generateAccountNumber (draws (i + k)) \<and>
     get_account (\<lambda>a. a_accountNumber a = num) s = None"
proof (induction rule: unique_loop.raw_induct [rotated 1, consumes 1])
  case (1 unique_loop draws s i num)
  show ?case
  proof (cases "get_account (\<lambda>a. a_accountNumber a = generateAccountNumber (draws i)) s")
    case None
    with 1(2) have "num = generateAccountNumber (draws i)"
      by simp
    with None have "num = generateAccountNumber (draws (i + 0)) \<and>
        get_account (\<lambda>a. a_accountNumber a = num) s = None"
      by simp
    then show ?thesis ..
  next
    case (Some existing)
    with 1(2) have "unique_loop draws s (Suc i) = Some num"
      by simp
    then have "\<exists>k. num = generateAccountNumber (draws (Suc i + k)) \<and>
        get_account (\<lambda>a. a_accountNumber a = num) s = None"
      by (rule 1(1))
    then obtain k where "num = generateAccountNumber (draws (Suc i + k))"
      and "get_account (\<lambda>a. a_accountNumber a = num) s = None"
      by blast
    then show ?thesis
      by (intro exI [of _ "Suc k"]) simp
  qed
qed

text \<open>
  C4, as the code has it. The loop of \<open>createAccount\<close> has no bound on its attempts and
  no error of its own: it returns exactly when some draw gives a number that no account
  holds.
\<close>

theorem unique_loop_returns_iff:
  "((\<exists>num. unique_loop draws s i = Some num) \<longleftrightarrow>
    (\<exists>k. get_account (\<lambda>a. a_accountNumber a = generateAccountNumber (draws (i + k))) s = None)) \<and>
   (\<forall>num. unique_loop draws s i = Some num \<longrightarrow>
      get_account (\<lambda>a. a_accountNumber a = num) s = None)"
proof (intro conjI iffI allI impI)
  assume "\<exists>num. unique_loop draws s i = Some num"
  then obtain num where "unique_loop draws s i = Some num" ..
  from unique_loop_Some [OF this]
  show "\<exists>k. get_account (\<lambda>a. a_accountNumber a = generateAccountNumber (draws (i + k))) s = None"
    by blast
next
  assume "\<exists>k. get_account (\<lambda>a. a_accountNumber a = generateAccountNumber (draws (i + k))) s = None"
  then obtain k where
    "get_account (\<lambda>a. a_accountNumber a = generateAccountNumber (draws (i + k))) s = None" ..
  from unique_loop_free [of draws i k s, OF this] show "\<exists>num. unique_loop draws s i = Some num"
    by blast
next
  fix num
  assume "unique_loop draws s i = Some num"
  from unique_loop_Some [OF this]
  show "get_account (\<lambda>a. a_accountNumber a = num) s = None"
    by blast
qed

theorem unique_loop_returns_iff_witness:
  "unique_loop (draws_from 1234567890) store1 0 = Some ''1234567891'' \<and>
   get_account (\<lambda>a. a_accountNumber a = ''1234567891'') store1 = None"
proof -
  have "unique_loop (draws_from 1234567890) store1 0 =
      unique_loop (draws_from 1234567890) store1 (Suc 0)"
    by (subst unique_loop.simps)
       (simp add: get_account_def store1_def checking1_def draws_from_def generate_1234567890)
  moreover have "unique_loop (draws_from 1234567890) store1 (Suc 0) = Some ''1234567891''"
    by (subst unique_loop.simps)
       (simp add: get_account_def store1_def checking1_def draws_from_def
        generateAccountNumber_def toString.simps digit_char_def)
  ultimately have ret: "unique_loop (draws_from 1234567890) store1 0 = Some ''1234567891''"
    by simp
  with unique_loop_returns_iff [of "draws_from 1234567890" store1 0] show ?thesis
    by blast
qed

lemma full_store_taken:
  assumes "randomInt_result lowest_draw draw_limit r"
  shows "get_account (\<lambda>a. a_accountNumber a = generateAccountNumber r) full_store \<noteq> None"
proof -
  from assms have "r \<in> set [lowest_draw..<draw_limit]"
    by (simp add: randomInt_result_def)
  then show ?thesis
    by (auto simp: get_account_def full_store_def find_None_iff)
qed

lemma full_store_never_returns:
  assumes "\<And>k. randomInt_result lowest_draw draw_limit (draws k)"
  shows "unique_loop draws full_store i = None"
proof (cases "unique_loop draws full_store i")
  case None
  then show ?thesis .
next
  case (Some num)
  from unique_loop_Some [OF this] obtain k where "get_account
      (\<lambda>a. a_accountNumber a = generateAccountNumber (draws (i + k))) full_store = None"
    by blast
  with full_store_taken [OF assms] show ?thesis
    by blast
qed

lemma full_store_no_user_1:
  "get_account (\<lambda>a. a_userId a = 1 \<and> a_accountType a = Checking) full_store = None"
proof -
  have "1 \<notin> set [lowest_draw..<draw_limit]"
    by (simp add: lowest_draw_def)
  then show ?thesis
    by (auto simp: get_account_def full_store_def find_None_iff)
qed

text \<open>
  When every number that can be drawn is taken, the loop never returns, and neither does
  \<open>createAccount\<close>: no error comes out.
\<close>

theorem unique_loop_never_ends_counterexample:
  "unique_loop (const_draws 1234567890) full_store 0 = None \<and>
   createAccount (const_draws 1234567890) 1 Checking full_store = None"
proof -
  have "randomInt_result lowest_draw draw_limit (const_draws 1234567890 k)" for k
    by (simp add: randomInt_result_def const_draws_def lowest_draw_def draw_limit_def)
  then have "unique_loop (const_draws 1234567890) full_store 0 = None"
    by (rule full_store_never_returns)
  then show ?thesis
    by (simp add: createAccount_def full_store_no_user_1 del: One_nat_def)
qed

section \<open>The scenario: open an account, fund it with 100, then with 50\<close>

lemma fund_first:
  "fundAccount 1 fund100 10 10 store1 =
     (Inr \<lparr>r_transaction = Some deposit100, r_newBalance = Finite 100\<rparr>, store2)"
  by (simp add: fundAccount_def fund100_def card_source_def store1_def store2_def checking1_def
      deposit100_def get_account_def insert_transaction_def next_id_def fetch_transaction_def
      update_balance_def js_add_0_100 Let_def del: js_add.simps)

lemma fund_second:
  "fundAccount 1 fund50 20 20 store2 =
     (Inr \<lparr>r_transaction = Some deposit100, r_newBalance = Finite 150\<rparr>, store3)"
  by (simp add: fundAccount_def fund50_def card_source_def store2_def store3_def checking1_def
      deposit100_def deposit50_def get_account_def insert_transaction_def next_id_def
      fetch_transaction_def update_balance_def js_add_100_50 Let_def del: js_add.simps)

lemma serve_example:
  "serve_all [CreateAccount (const_draws 1234567890) 1 Checking,
              FundAccount 1 fund100 10 10, FundAccount 1 fund50 20 20] empty_store = Some store3"
  by (simp add: createAccount_first fund_first fund_second del: One_nat_def)

theorem balance_is_deposits_added_witness:
  "serve_all [CreateAccount (const_draws 1234567890) 1 Checking,
              FundAccount 1 fund100 10 10, FundAccount 1 fund50 20 20] empty_store = Some store3 \<and>
   deposits_added 1 store3 = Finite 150 \<and>
   deposits_sum 1 store3 = Finite 150"
proof -
  have mem: "checking1\<lparr>a_balance := Finite 150\<rparr> \<in> set (accounts store3)"
    by (simp add: store3_def)
  have amounts: "deposit_amounts 1 store3 = map (\<lambda>k. Finite (of_nat k)) [100, 50]"
    by (simp add: deposit_amounts_def store3_def deposit100_def deposit50_def)
  have small: "sum_list [100, 50] \<le> (2::nat) ^ 53"
    by simp
  have id1: "a_id (checking1\<lparr>a_balance := Finite 150\<rparr>) = 1"
    and bal: "a_balance (checking1\<lparr>a_balance := Finite 150\<rparr>) = Finite 150"
    by (simp_all add: checking1_def)
  from balance_is_deposits_added [OF serve_example mem]
  have added: "Finite 150 = deposits_added 1 store3"
    and exact: "\<forall>ks. deposit_amounts 1 store3 = map (\<lambda>k. Finite (of_nat k)) ks \<and>
               sum_list ks \<le> 2 ^ 53 \<longrightarrow> Finite 150 = deposits_sum 1 store3"
    unfolding id1 bal by blast+
  from exact amounts small have "Finite 150 = deposits_sum 1 store3"
    by blast
  with added serve_example show ?thesis
    by simp
qed

text \<open>
  The balance is not the sum of the amounts in general. After a funding with ten
  quadrillion and a funding with 1 the balance is ten quadrillion: the second sum lies
  halfway between two doubles and is rounded down. The amounts sum to one more.
\<close>

lemma fund_1e16_first:
  "fundAccount 1 fund_1e16 10 10 store1 =
     (Inr \<lparr>r_transaction = Some (deposit100\<lparr>t_amount := Finite 10000000000000000\<rparr>),
           r_newBalance = Finite 10000000000000000\<rparr>, store_1e16)"
  by (simp add: fundAccount_def fund_1e16_def card_source_def store1_def store_1e16_def
      checking1_def deposit100_def get_account_def insert_transaction_def next_id_def
      fetch_transaction_def update_balance_def js_add_0_1e16 Let_def del: js_add.simps)

lemma fund_one_second:
  "fundAccount 1 fund_one 20 20 store_1e16 =
     (Inr \<lparr>r_transaction = Some (deposit100\<lparr>t_amount := Finite 10000000000000000\<rparr>),
           r_newBalance = Finite 10000000000000000\<rparr>, store_rounded)"
  by (simp add: fundAccount_def fund_one_def card_source_def store_1e16_def store_rounded_def
      checking1_def deposit100_def deposit50_def get_account_def insert_transaction_def
      next_id_def fetch_transaction_def update_balance_def js_add_1e16_1 Let_def del: js_add.simps)

theorem balance_not_sum_counterexample:
  "serve_all [CreateAccount (const_draws 1234567890) 1 Checking,
              FundAccount 1 fund_1e16 10 10, FundAccount 1 fund_one 20 20] empty_store =
     Some store_rounded \<and>
   map a_balance (accounts store_rounded) = [Finite 10000000000000000] \<and>
   deposits_sum 1 store_rounded = Finite 10000000000000001"
proof (intro conjI)
  show "serve_all [CreateAccount (const_draws 1234567890) 1 Checking,
              FundAccount 1 fund_1e16 10 10, FundAccount 1 fund_one 20 20] empty_store =
     Some store_rounded"
    by (simp add: createAccount_first fund_1e16_first fund_one_second del: One_nat_def)
  show "map a_balance (accounts store_rounded) = [Finite 10000000000000000]"
    by (simp add: store_rounded_def)
  show "deposits_sum 1 store_rounded = Finite 10000000000000001"
    by (simp add: deposits_sum_def deposit_amounts_def store_rounded_def deposit100_def
        deposit50_def)
qed

section \<open>What fundAccount returns\<close>

text \<open>
  C3, at the second funding of an account. The call inserts \<open>deposit50\<close>, and the
  transaction it returns is \<open>deposit100\<close>, the one the first call inserted: the select
  of lines 138 to 144 takes the account's oldest transaction. The \<open>newBalance\<close> it
  returns, 150, is the balance in the store after the call.
\<close>

theorem fundAccount_returns_first_transaction:
  "fundAccount 1 fund50 20 20 store2 =
     (Inr \<lparr>r_transaction = Some deposit100, r_newBalance = Finite 150\<rparr>, store3) \<and>
   transactions store3 = transactions store2 @ [deposit50] \<and>
   deposit100 \<noteq> deposit50"
proof (intro conjI)
  show "fundAccount 1 fund50 20 20 store2 =
     (Inr \<lparr>r_transaction = Some deposit100, r_newBalance = Finite 150\<rparr>, store3)"
    by (rule fund_second)
  show "transactions store3 = transactions store2 @ [deposit50]"
    by (simp add: store2_def store3_def)
  show "deposit100 \<noteq> deposit50"
    by (simp add: deposit100_def deposit50_def)
qed

section \<open>Several fundAccount calls on one account\<close>

lemma fund_steps_are_fundAccount:
  "run_schedule [0, 0, 0, 0] [Called uid inp now processed] s =
     ([Returned (fst (fundAccount uid inp now processed s))],
      snd (fundAccount uid inp now processed s))"
  by (simp add: fundAccount_def Let_def split: option.split)

lemma fund_step_accountId:
  "call_accountId c \<in> {None, Some aid} \<Longrightarrow> call_accountId (fst (fund_step c s)) \<in> {None, Some aid}"
  by (induction c s rule: fund_step.induct) auto

lemma fund_step_inserted:
  "call_accountId c \<in> {None, Some aid} \<Longrightarrow>
   length (transactions_of aid (snd (fund_step c s))) + inserted c =
     length (transactions_of aid s) + inserted (fst (fund_step c s))"
  by (induction c s rule: fund_step.induct)
     (auto simp: transactions_of_def insert_transaction_def update_balance_def)

lemma sum_list_update_nat:
  "k < length xs \<Longrightarrow>
   sum_list (map f (xs[k := y])) + f (xs ! k) = sum_list (map f xs) + (f y :: nat)"
proof (induction xs arbitrary: k)
  case Nil
  then show ?case by simp
next
  case (Cons x xs)
  then show ?case
    by (cases k) (auto simp: add.assoc add.left_commute)
qed

lemma run_schedule_inserted:
  assumes "\<forall>c\<in>set calls. call_accountId c \<in> {None, Some aid}"
  shows "length (transactions_of aid (snd (run_schedule sched calls s))) + sum_list (map inserted calls) =
           length (transactions_of aid s) + sum_list (map inserted (fst (run_schedule sched calls s))) \<and>
         length (fst (run_schedule sched calls s)) = length calls"
  using assms
proof (induction sched arbitrary: calls s)
  case Nil
  then show ?case by simp
next
  case (Cons k ks)
  show ?case
  proof (cases "k < length calls")
    case False
    with Cons show ?thesis by simp
  next
    case True
    let ?c = "fst (fund_step (calls ! k) s)" and ?s = "snd (fund_step (calls ! k) s)"
    from True Cons.prems have ck: "call_accountId (calls ! k) \<in> {None, Some aid}"
      by (metis nth_mem)
    then have "call_accountId ?c \<in> {None, Some aid}"
      by (rule fund_step_accountId)
    with Cons.prems have "\<forall>c\<in>set (calls[k := ?c]). call_accountId c \<in> {None, Some aid}"
      by (metis insert_iff set_update_subset_insert subsetD)
    from Cons.IH [OF this, of ?s]
    have ih: "length (transactions_of aid (snd (run_schedule ks (calls[k := ?c]) ?s))) +
                sum_list (map inserted (calls[k := ?c])) =
              length (transactions_of aid ?s) +
                sum_list (map inserted (fst (run_schedule ks (calls[k := ?c]) ?s)))"
      and len: "length (fst (run_schedule ks (calls[k := ?c]) ?s)) = length calls"
      by simp_all
    have step: "length (transactions_of aid ?s) + inserted (calls ! k) =
                length (transactions_of aid s) + inserted ?c"
      using ck by (rule fund_step_inserted)
    have upd: "sum_list (map inserted (calls[k := ?c])) + inserted (calls ! k) =
               sum_list (map inserted calls) + inserted ?c"
      using True by (rule sum_list_update_nat)
    from ih step upd len True show ?thesis
      by simp
  qed
qed

lemma all_succeeded_inserted:
  "list_all succeeded calls \<Longrightarrow> sum_list (map inserted calls) = length calls"
proof (induction calls)
  case Nil
  then show ?case by simp
next
  case (Cons c cs)
  then show ?case
    by (cases c rule: succeeded.cases) simp_all
qed

lemma start_calls_fresh:
  "sum_list (map inserted (start_calls uid inp clocks)) = 0 \<and>
   length (start_calls uid inp clocks) = length clocks \<and>
   (\<forall>c\<in>set (start_calls uid inp clocks). call_accountId c \<in> {None, Some (i_accountId inp)})"
  by (induction uid inp clocks rule: start_calls.induct) simp_all

lemma interleaved_transactions:
  assumes "list_all succeeded (fst (run_schedule sched (start_calls uid inp clocks) s))"
  shows "length (transactions_of (i_accountId inp)
            (snd (run_schedule sched (start_calls uid inp clocks) s))) =
         length (transactions_of (i_accountId inp) s) + length clocks"
proof -
  let ?calls = "start_calls uid inp clocks"
  let ?end = "run_schedule sched ?calls s"
  have ids: "\<forall>c\<in>set ?calls. call_accountId c \<in> {None, Some (i_accountId inp)}"
    and zero: "sum_list (map inserted ?calls) = 0"
    and len: "length ?calls = length clocks"
    using start_calls_fresh [of uid inp clocks] by simp_all
  from run_schedule_inserted [OF ids, of sched s]
  have count: "length (transactions_of (i_accountId inp) (snd ?end)) + sum_list (map inserted ?calls) =
      length (transactions_of (i_accountId inp) s) + sum_list (map inserted (fst ?end))"
    and same: "length (fst ?end) = length ?calls"
    by simp_all
  from assms have "sum_list (map inserted (fst ?end)) = length (fst ?end)"
    by (rule all_succeeded_inserted)
  with count zero same len show ?thesis
    by simp
qed

lemma fundAccount_success:
  assumes "distinct (map a_id (accounts s))"
    and "account \<in> set (accounts s)"
    and "a_id account = i_accountId inp" and "a_userId account = uid"
    and "a_status account = ''active''"
    and "js_gt (i_amount inp) (Finite 0)"
  shows "snd (fundAccount uid inp now processed s) =
           update_balance (i_accountId inp) (js_add (a_balance account) (i_amount inp))
             (insert_transaction now (i_accountId inp) ''deposit'' (i_amount inp)
                (''Funding from '' @ funding_type_str (fs_type (i_fundingSource inp)))
                ''completed'' processed s)"
proof -
  from assms have "get_account (\<lambda>a. a_id a = i_accountId inp \<and> a_userId a = uid) s = Some account"
    using get_account_by_id [of s account "\<lambda>a. a_userId a = uid"] by simp
  with assms(5) js_gt_not_le [OF assms(6)] show ?thesis
    by (simp add: fundAccount_def Let_def)
qed

lemma update_balance_ids:
  "map a_id (accounts (update_balance aid b s)) = map a_id (accounts s)"
  by (simp add: update_balance_def)

lemma fund_repeatedly_result:
  assumes "distinct (map a_id (accounts s))"
    and "account \<in> set (accounts s)"
    and "a_id account = i_accountId inp" and "a_userId account = uid"
    and "a_status account = ''active''"
    and "js_gt (i_amount inp) (Finite 0)"
  shows "distinct (map a_id (accounts (fund_repeatedly uid inp clocks s))) \<and>
         account\<lparr>a_balance := add_repeatedly (length clocks) (i_amount inp) (a_balance account)\<rparr>
           \<in> set (accounts (fund_repeatedly uid inp clocks s)) \<and>
         length (transactions_of (i_accountId inp) (fund_repeatedly uid inp clocks s)) =
           length (transactions_of (i_accountId inp) s) + length clocks"
  using assms
proof (induction uid inp clocks s arbitrary: account rule: fund_repeatedly.induct)
  case (1 uid inp s)
  then show ?case by simp
next
  case (2 uid inp now processed clocks s)
  let ?b = "js_add (a_balance account) (i_amount inp)"
  let ?s' = "snd (fundAccount uid inp now processed s)"
  let ?account' = "account\<lparr>a_balance := ?b\<rparr>"
  have s': "?s' = update_balance (i_accountId inp) ?b
             (insert_transaction now (i_accountId inp) ''deposit'' (i_amount inp)
                (''Funding from '' @ funding_type_str (fs_type (i_fundingSource inp)))
                ''completed'' processed s)"
    using "2.prems" by (rule fundAccount_success)
  have dist: "distinct (map a_id (accounts ?s'))"
    using "2.prems"(1) by (simp add: s' update_balance_ids) (simp add: insert_transaction_def)
  have mem: "?account' \<in> set (accounts ?s')"
    using "2.prems"(2,3) by (force simp: s' insert_transaction_def update_balance_def)
  have count: "length (transactions_of (i_accountId inp) ?s') =
               Suc (length (transactions_of (i_accountId inp) s))"
    by (simp add: s' transactions_of_def update_balance_def insert_transaction_def)
  from "2.IH" [OF dist mem] "2.prems"(3-6)
  have "distinct (map a_id (accounts (fund_repeatedly uid inp clocks ?s')))"
    and "?account'\<lparr>a_balance := add_repeatedly (length clocks) (i_amount inp) (a_balance ?account')\<rparr>
           \<in> set (accounts (fund_repeatedly uid inp clocks ?s'))"
    and "length (transactions_of (i_accountId inp) (fund_repeatedly uid inp clocks ?s')) =
           length (transactions_of (i_accountId inp) ?s') + length clocks"
    by simp_all
  with count show ?case
    by simp
qed

lemma four_turns:
  assumes "k < length calls" and "calls ! k = Called uid inp now processed"
  shows "run_schedule ([k, k, k, k] @ ks) calls s =
           run_schedule ks (calls[k := Returned (fst (fundAccount uid inp now processed s))])
             (snd (fundAccount uid inp now processed s))"
  using assms by (simp add: fundAccount_def Let_def split: option.split)

lemma one_by_one_is_fund_repeatedly:
  "snd (run_schedule (one_by_one (length finished) (length clocks))
          (finished @ start_calls uid inp clocks) s) =
   fund_repeatedly uid inp clocks s"
proof (induction uid inp clocks s arbitrary: finished rule: fund_repeatedly.induct)
  case (1 uid inp s)
  then show ?case by simp
next
  case (2 uid inp now processed clocks s)
  let ?calls = "finished @ Called uid inp now processed # start_calls uid inp clocks"
  let ?r = "Returned (fst (fundAccount uid inp now processed s))"
  have "run_schedule ([length finished, length finished, length finished, length finished] @
            one_by_one (Suc (length finished)) (length clocks)) ?calls s =
        run_schedule (one_by_one (Suc (length finished)) (length clocks)) (?calls[length finished := ?r])
          (snd (fundAccount uid inp now processed s))"
    by (rule four_turns) simp_all
  moreover have "?calls[length finished := ?r] = (finished @ [?r]) @ start_calls uid inp clocks"
    by simp
  ultimately show ?case
    using "2.IH" [of "finished @ [?r]"] by simp
qed

lemma two_calls_interleaved:
  "run_schedule [0, 1, 0, 1, 0, 1, 0, 1] (start_calls 1 fund100 [(10, 10), (11, 11)]) store1 =
     ([Returned (Inr \<lparr>r_transaction = Some deposit100, r_newBalance = Finite 100\<rparr>),
       Returned (Inr \<lparr>r_transaction = Some deposit100, r_newBalance = Finite 100\<rparr>)],
      \<lparr>accounts = [checking1\<lparr>a_balance := Finite 100\<rparr>],
        transactions = [deposit100,
                        deposit100\<lparr>t_id := 2, t_createdAt := 11, t_processedAt := 11\<rparr>]\<rparr>)"
  by (simp add: fund100_def card_source_def store1_def checking1_def
      deposit100_def get_account_def insert_transaction_def next_id_def fetch_transaction_def
      update_balance_def js_add_0_100 del: js_add.simps)

lemma store1_account:
  "distinct (map a_id (accounts store1))" "checking1 \<in> set (accounts store1)"
  "a_id checking1 = 1" "a_userId checking1 = 1" "a_status checking1 = ''active''"
  "a_balance checking1 = Finite 0"
  by (simp_all add: store1_def checking1_def)

lemma ten_tenths_funded:
  "get_account (\<lambda>a. a_id a = 1 \<and> a_userId a = 1) (fund_repeatedly 1 fund_tenth ten_clocks store1) =
     Some (checking1\<lparr>a_balance := Finite (9007199254740991 / 9007199254740992)\<rparr>)"
proof -
  let ?s' = "fund_repeatedly 1 fund_tenth ten_clocks store1"
  let ?account' = "checking1\<lparr>a_balance := Finite (9007199254740991 / 9007199254740992)\<rparr>"
  have amount: "i_amount fund_tenth = tenth" and aid: "i_accountId fund_tenth = 1"
    by (simp_all add: fund_tenth_def)
  have valid: "js_gt (i_amount fund_tenth) (Finite 0)"
    by (simp add: fund_tenth_def tenth_def)
  from store1_account(3) aid have same: "a_id checking1 = i_accountId fund_tenth"
    by simp
  from fund_repeatedly_result
    [OF store1_account(1,2) same store1_account(4,5) valid, of ten_clocks]
  have dist: "distinct (map a_id (accounts ?s'))" and mem: "?account' \<in> set (accounts ?s')"
    unfolding amount store1_account(6) ten_tenths by blast+
  have "a_id ?account' = 1" "a_userId ?account' = 1"
    by (simp_all add: checking1_def)
  with get_account_by_id [OF dist mem, of "\<lambda>a. a_userId a = 1"] show ?thesis
    by simp
qed

text \<open>
  C2, as the code has it. The account is the caller's, active, with balance 0, and the
  amount is valid. When the \<open>N\<close> calls are served one after another, the balance ends
  at the amount added \<open>N\<close> times to 0, each sum rounded to a double, which is \<open>N\<close>
  times the amount when the amount is a whole number and the product is at most
  \<open>2 ^ 53\<close>; and the account has \<open>N\<close> more transactions. When the calls take their
  turns in any other order and all succeed, the account still has \<open>N\<close> more
  transactions; of the balance nothing is said then.
\<close>

theorem fund_calls_one_after_another:
  assumes "distinct (map a_id (accounts s))"
    and "account \<in> set (accounts s)"
    and "a_id account = i_accountId inp" and "a_userId account = uid"
    and "a_status account = ''active''"
    and "a_balance account = Finite 0"
    and "js_gt (i_amount inp) (Finite 0)"
  shows "get_account (\<lambda>a. a_id a = i_accountId inp \<and> a_userId a = uid)
           (fund_repeatedly uid inp clocks s) =
           Some (account\<lparr>a_balance := add_repeatedly (length clocks) (i_amount inp) (Finite 0)\<rparr>) \<and>
         (\<forall>k. i_amount inp = Finite (of_nat k) \<and> length clocks * k \<le> 2 ^ 53 \<longrightarrow>
              add_repeatedly (length clocks) (i_amount inp) (Finite 0) =
                Finite (of_nat (length clocks * k))) \<and>
         length (transactions_of (i_accountId inp) (fund_repeatedly uid inp clocks s)) =
           length (transactions_of (i_accountId inp) s) + length clocks \<and>
         (list_all succeeded (fst (run_schedule sched (start_calls uid inp clocks) s)) \<longrightarrow>
          length (transactions_of (i_accountId inp)
                    (snd (run_schedule sched (start_calls uid inp clocks) s))) =
            length (transactions_of (i_accountId inp) s) + length clocks)"
proof -
  let ?s' = "fund_repeatedly uid inp clocks s"
  let ?account' = "account\<lparr>a_balance := add_repeatedly (length clocks) (i_amount inp) (Finite 0)\<rparr>"
  from fund_repeatedly_result [OF assms(1-5,7), of clocks] assms(6)
  have dist: "distinct (map a_id (accounts ?s'))"
    and mem: "?account' \<in> set (accounts ?s')"
    and count: "length (transactions_of (i_accountId inp) ?s') =
                length (transactions_of (i_accountId inp) s) + length clocks"
    by simp_all
  from assms(3,4) have "a_id ?account' = i_accountId inp" "a_userId ?account' = uid"
    by simp_all
  with get_account_by_id [OF dist mem, of "\<lambda>a. a_userId a = uid"]
  have found: "get_account (\<lambda>a. a_id a = i_accountId inp \<and> a_userId a = uid) ?s' = Some ?account'"
    by simp
  have whole: "add_repeatedly (length clocks) (i_amount inp) (Finite 0) =
      Finite (of_nat (length clocks * k))"
    if "i_amount inp = Finite (of_nat k)" and "length clocks * k \<le> 2 ^ 53" for k
    using that add_repeatedly_nat [of 0 "length clocks" k] by simp
  from found whole count show ?thesis
    using interleaved_transactions [of sched uid inp clocks s] by blast
qed

theorem fund_calls_one_after_another_witness:
  "get_account (\<lambda>a. a_id a = 1 \<and> a_userId a = 1)
     (fund_repeatedly 1 fund100 [(10, 10), (11, 11)] store1) =
     Some (checking1\<lparr>a_balance := Finite 200\<rparr>) \<and>
   add_repeatedly 2 (Finite 100) (Finite 0) = Finite 200 \<and>
   length (transactions_of 1 (fund_repeatedly 1 fund100 [(10, 10), (11, 11)] store1)) = 2 \<and>
   length (transactions_of 1
             (snd (run_schedule [0, 1, 0, 1, 0, 1, 0, 1]
                     (start_calls 1 fund100 [(10, 10), (11, 11)]) store1))) = 2"
proof -
  let ?clocks = "[(10::nat, 10::nat), (11, 11)]"
  let ?sched = "[0::nat, 1, 0, 1, 0, 1, 0, 1]"
  have amount: "i_amount fund100 = Finite 100" and aid: "i_accountId fund100 = 1"
    by (simp_all add: fund100_def)
  have valid: "js_gt (i_amount fund100) (Finite 0)"
    by (simp add: fund100_def)
  from store1_account(3) aid have same: "a_id checking1 = i_accountId fund100"
    by simp
  from fund_calls_one_after_another
    [OF store1_account(1,2) same store1_account(4,5,6) valid, of ?clocks ?sched]
  have found: "get_account (\<lambda>a. a_id a = 1 \<and> a_userId a = 1)
        (fund_repeatedly 1 fund100 ?clocks store1) =
        Some (checking1\<lparr>a_balance := add_repeatedly (length ?clocks) (Finite 100) (Finite 0)\<rparr>)"
    and whole: "\<forall>k. Finite 100 = Finite (of_nat k) \<and> length ?clocks * k \<le> 2 ^ 53 \<longrightarrow>
        add_repeatedly (length ?clocks) (Finite 100) (Finite 0) = Finite (of_nat (length ?clocks * k))"
    and count: "length (transactions_of 1 (fund_repeatedly 1 fund100 ?clocks store1)) =
        length (transactions_of 1 store1) + length ?clocks"
    and inter: "list_all succeeded (fst (run_schedule ?sched (start_calls 1 fund100 ?clocks) store1)) \<longrightarrow>
        length (transactions_of 1 (snd (run_schedule ?sched (start_calls 1 fund100 ?clocks) store1))) =
        length (transactions_of 1 store1) + length ?clocks"
    unfolding amount aid by blast+
  have "Finite 100 = Finite (of_nat 100) \<and> length ?clocks * 100 \<le> (2::nat) ^ 53"
    by simp
  with whole have "add_repeatedly (length ?clocks) (Finite 100) (Finite 0) =
      Finite (of_nat (length ?clocks * 100))"
    by blast
  then have sum: "add_repeatedly (length ?clocks) (Finite 100) (Finite 0) = Finite 200"
    by simp
  have two: "length ?clocks = 2" and none: "length (transactions_of 1 store1) = 0"
    by (simp_all add: transactions_of_def store1_def)
  have ok: "list_all succeeded (fst (run_schedule ?sched (start_calls 1 fund100 ?clocks) store1))"
    unfolding two_calls_interleaved by simp
  from found sum have "get_account (\<lambda>a. a_id a = 1 \<and> a_userId a = 1)
        (fund_repeatedly 1 fund100 ?clocks store1) = Some (checking1\<lparr>a_balance := Finite 200\<rparr>)"
    by (simp only:)
  moreover from sum two have "add_repeatedly 2 (Finite 100) (Finite 0) = Finite 200"
    by (simp only:)
  moreover from count two none
  have "length (transactions_of 1 (fund_repeatedly 1 fund100 ?clocks store1)) = 2"
    by simp
  moreover from inter ok two none
  have "length (transactions_of 1 (snd (run_schedule ?sched (start_calls 1 fund100 ?clocks) store1))) = 2"
    by simp
  ultimately show ?thesis
    by blast
qed

text \<open>
  Two calls of amount 100 on an account with balance 0 that take their turns alternately:
  both read the balance 0 before either writes, both succeed, and the balance ends at
  100: one update is lost. And ten calls of amount 0.1 served one after another: the
  balance ends at 0.9999999999999999, which is not ten times 0.1.
\<close>

theorem lost_update_counterexample:
  "a_balance checking1 = Finite 0 \<and>
   list_all succeeded
     (fst (run_schedule [0, 1, 0, 1, 0, 1, 0, 1]
             (start_calls 1 fund100 [(10, 10), (11, 11)]) store1)) \<and>
   map a_balance
     (accounts (snd (run_schedule [0, 1, 0, 1, 0, 1, 0, 1]
                       (start_calls 1 fund100 [(10, 10), (11, 11)]) store1))) = [Finite 100] \<and>
   i_amount fund100 = Finite 100 \<and>
   get_account (\<lambda>a. a_id a = 1 \<and> a_userId a = 1) (fund_repeatedly 1 fund_tenth ten_clocks store1) =
     Some (checking1\<lparr>a_balance := Finite (9007199254740991 / 9007199254740992)\<rparr>) \<and>
   length ten_clocks = 10 \<and>
   i_amount fund_tenth = Finite (3602879701896397 / 36028797018963968) \<and>
   10 * (3602879701896397 / 36028797018963968) \<noteq> (9007199254740991 / 9007199254740992 :: rat)"
  unfolding two_calls_interleaved ten_tenths_funded
  by (simp add: checking1_def fund100_def fund_tenth_def tenth_def ten_clocks_def)

end
